theory Spec2Isabelle
  imports Main "HOL-Library.Sublist"
begin

section \<open>LSP positions and ranges (lsp_types.py)\<close>

text \<open>
  \<^verbatim>\<open>Position\<close> is a dataclass with two Python integers; its generated equality compares
  both fields, which is the equality of the record. The four rich comparisons are
  written out in the source one by one and are transcribed one by one.
\<close>

record Position =
  line :: int
  character :: int

record Range =
  start :: Position
  end_pos :: Position

definition Position_ge :: "Position \<Rightarrow> Position \<Rightarrow> bool" where
  "Position_ge self other =
     (let line_gt = line self > line other in
      if line_gt then True
      else if line self = line other then character self \<ge> character other
      else False)"

definition Position_gt :: "Position \<Rightarrow> Position \<Rightarrow> bool" where
  "Position_gt self other =
     (let line_gt = line self > line other in
      if line_gt then True
      else if line self = line other then character self > character other
      else False)"

definition Position_le :: "Position \<Rightarrow> Position \<Rightarrow> bool" where
  "Position_le self other =
     (let line_lt = line self < line other in
      if line_lt then True
      else if line self = line other then character self \<le> character other
      else False)"

definition Position_lt :: "Position \<Rightarrow> Position \<Rightarrow> bool" where
  "Position_lt self other =
     (let line_lt = line self < line other in
      if line_lt then True
      else if line self = line other then character self < character other
      else False)"

text \<open>
  \<^verbatim>\<open>range.start <= self <= range.end\<close> is Python's chained comparison: the conjunction of
  \<^verbatim>\<open>range.start <= self\<close> and \<^verbatim>\<open>self <= range.end\<close>, each dispatched to the left operand.
\<close>

definition is_in_range :: "Position \<Rightarrow> Range \<Rightarrow> bool \<Rightarrow> bool" where
  "is_in_range self r include_end =
     (if include_end then Position_le (start r) self \<and> Position_le self (end_pos r)
      else Position_le (start r) self \<and> Position_lt self (end_pos r))"

definition Range_zero :: Range where
  "Range_zero = \<lparr>start = \<lparr>line = 0, character = 0\<rparr>, end_pos = \<lparr>line = 0, character = 0\<rparr>\<rparr>"

section \<open>Regular expressions of Python's re module\<close>

text \<open>
  The analyzer decides suppression with two compiled patterns. They are kept as data and
  run by a small backtracking matcher with the semantics of Python's \<^verbatim>\<open>re\<close> for the
  constructs the patterns use: greedy repetition of a one-character class (\<^verbatim>\<open>.*\<close>,
  \<^verbatim>\<open> *\<close>, \<^verbatim>\<open>\t+\<close>, \<^verbatim>\<open> {2,}\<close>, \<^verbatim>\<open>\s*\<close>, \<^verbatim>\<open>\w+\<close>), literals, \<^verbatim>\<open>^\<close>, \<^verbatim>\<open>$\<close> and \<^verbatim>\<open>\b\<close>
  without flags, ordered alternation and named groups. A string is a list of code points
  below 256 (the type \<open>char\<close>), and \<^verbatim>\<open>\s\<close>, \<^verbatim>\<open>\w\<close> and \<^verbatim>\<open>\b\<close> are the classes of a
  \<^verbatim>\<open>str\<close> pattern on that range: the white space of Unicode (with U+0085 and U+00A0),
  and the alphanumeric characters of Unicode and the underscore (with the letters and
  the numeric characters of Latin-1).
\<close>

datatype cclass = Dot | Space | Word | Only char

definition newline :: char where
  "newline = CHR 0x0A"

definition is_space :: "char \<Rightarrow> bool" where
  "is_space c \<longleftrightarrow>
     (of_char c :: nat) \<in> set [0x09, 0x0A, 0x0B, 0x0C, 0x0D, 0x1C, 0x1D, 0x1E, 0x1F, 0x20,
                                0x85, 0xA0]"

definition is_word :: "char \<Rightarrow> bool" where
  "is_word c \<longleftrightarrow>
     (let n = of_char c :: nat
      in (0x30 \<le> n \<and> n \<le> 0x39) \<or> (0x41 \<le> n \<and> n \<le> 0x5A) \<or> n = 0x5F
         \<or> (0x61 \<le> n \<and> n \<le> 0x7A)
         \<or> n \<in> set [0xAA, 0xB2, 0xB3, 0xB5, 0xB9, 0xBA, 0xBC, 0xBD, 0xBE]
         \<or> (0xC0 \<le> n \<and> n \<le> 0xD6) \<or> (0xD8 \<le> n \<and> n \<le> 0xF6) \<or> (0xF8 \<le> n \<and> n \<le> 0xFF))"

fun in_class :: "cclass \<Rightarrow> char \<Rightarrow> bool" where
  "in_class Dot c = (c \<noteq> newline)"
| "in_class Space c = is_space c"
| "in_class Word c = is_word c"
| "in_class (Only d) c = (c = d)"

datatype re =
    Rep cclass nat
  | Lit char
  | Str string
  | Bol
  | Eol
  | Wordb
  | Seq re re
  | Alt re re
  | Grp string re

type_synonym caps = "(string \<times> nat \<times> nat) list"

text \<open>The longest run of characters of a class from position \<open>p\<close>.\<close>

definition run_length :: "cclass \<Rightarrow> string \<Rightarrow> nat \<Rightarrow> nat" where
  "run_length c s p = length (takeWhile (in_class c) (drop p s))"

text \<open>Greedy repetition: the longest count first, then one less, down to the minimum.\<close>

fun try_down :: "nat \<Rightarrow> nat \<Rightarrow> (nat \<Rightarrow> 'a option) \<Rightarrow> 'a option" where
  "try_down lo 0 f = (if 0 < lo then None else f 0)"
| "try_down lo (Suc n) f =
     (if Suc n < lo then None
      else case f (Suc n) of Some r \<Rightarrow> Some r | None \<Rightarrow> try_down lo n f)"

text \<open>\<^verbatim>\<open>\b\<close>: exactly one of the characters before and after the position is a word character.\<close>

definition word_boundary :: "string \<Rightarrow> nat \<Rightarrow> bool" where
  "word_boundary s p \<longleftrightarrow>
     (0 < p \<and> p \<le> length s \<and> is_word (s ! (p - 1))) \<noteq> (p < length s \<and> is_word (s ! p))"

fun rmatch :: "re \<Rightarrow> string \<Rightarrow> nat \<Rightarrow> caps \<Rightarrow> (nat \<Rightarrow> caps \<Rightarrow> 'a option) \<Rightarrow> 'a option" where
  "rmatch (Rep c lo) s p cs k = try_down lo (run_length c s p) (\<lambda>n. k (p + n) cs)"
| "rmatch (Lit c) s p cs k = (if p < length s \<and> s ! p = c then k (Suc p) cs else None)"
| "rmatch (Str w) s p cs k =
     (if take (length w) (drop p s) = w then k (p + length w) cs else None)"
| "rmatch Bol s p cs k = (if p = 0 then k p cs else None)"
| "rmatch Eol s p cs k =
     (if p = length s \<or> (Suc p = length s \<and> s ! p = newline) then k p cs else None)"
| "rmatch Wordb s p cs k = (if word_boundary s p then k p cs else None)"
| "rmatch (Seq a b) s p cs k = rmatch a s p cs (\<lambda>p' cs'. rmatch b s p' cs' k)"
| "rmatch (Alt a b) s p cs k =
     (case rmatch a s p cs k of Some r \<Rightarrow> Some r | None \<Rightarrow> rmatch b s p cs k)"
| "rmatch (Grp g r) s p cs k = rmatch r s p cs (\<lambda>p' cs'. k p' ((g, p, p') # cs'))"

text \<open>A match object: where the match starts and ends, and its groups.\<close>

type_synonym rematch = "nat \<times> nat \<times> caps"

definition match_at :: "re \<Rightarrow> string \<Rightarrow> nat \<Rightarrow> rematch option" where
  "match_at r s p =
     (case rmatch r s p [] (\<lambda>e cs. Some (e, cs)) of
        None \<Rightarrow> None
      | Some (e, cs) \<Rightarrow> Some (p, e, cs))"

text \<open>\<^verbatim>\<open>pattern.match(s)\<close>: a match at position 0 only.\<close>

definition re_match :: "re \<Rightarrow> string \<Rightarrow> rematch option" where
  "re_match r s = match_at r s 0"

text \<open>\<^verbatim>\<open>m.group(name)\<close> of a group that took part in the match.\<close>

definition group :: "string \<Rightarrow> rematch \<Rightarrow> string \<Rightarrow> string option" where
  "group s m g =
     (case map_of (snd (snd m)) g of
        None \<Rightarrow> None
      | Some (a, b) \<Rightarrow> Some (take (b - a) (drop a s)))"

text \<open>\<^verbatim>\<open>pattern.search(s, p)\<close>: the first position from \<open>p\<close> on where the pattern matches.\<close>

function search_from :: "re \<Rightarrow> string \<Rightarrow> nat \<Rightarrow> rematch option" where
  "search_from r s p =
     (if length s < p then None
      else case match_at r s p of
             Some m \<Rightarrow> Some m
           | None \<Rightarrow> search_from r s (Suc p))"
  by pat_completeness auto
termination
  by (relation "measure (\<lambda>(r, s, p). Suc (length s) - p)") auto

definition re_search :: "re \<Rightarrow> string \<Rightarrow> rematch option" where
  "re_search r s = search_from r s 0"

text \<open>
  \<^verbatim>\<open>pattern.finditer(s)\<close>: the matches from left to right, none overlapping: the scan
  tries each position in turn, and after a match it resumes where the match ended (one
  further after an empty match).
\<close>

function finditer_from :: "re \<Rightarrow> string \<Rightarrow> nat \<Rightarrow> rematch list" where
  "finditer_from r s p =
     (if length s < p then []
      else case match_at r s p of
             None \<Rightarrow> finditer_from r s (Suc p)
           | Some m \<Rightarrow> m # finditer_from r s (if p < fst (snd m) then fst (snd m) else Suc p))"
  by pat_completeness auto
termination
  by (relation "measure (\<lambda>(r, s, p). Suc (length s) - p)") auto

definition finditer :: "re \<Rightarrow> string \<Rightarrow> rematch list" where
  "finditer r s = finditer_from r s 0"

text \<open>
  \<^verbatim>\<open>EXTRACT_COMMENT_PATTERN = re.compile(r".*(?:^ *|\t+| {2,})#(?P<comment>.*)$")\<close>
\<close>

definition EXTRACT_COMMENT_PATTERN :: re where
  "EXTRACT_COMMENT_PATTERN =
     Seq (Rep Dot 0)
      (Seq (Alt (Seq Bol (Rep (Only CHR '' '') 0))
             (Alt (Rep (Only (CHR 0x09)) 1) (Rep (Only CHR '' '') 2)))
        (Seq (Lit CHR ''#'') (Seq (Grp ''comment'' (Rep Dot 0)) Eol)))"

text \<open>
  \<^verbatim>\<open>ROBOTCODE_PATTERN = re.compile(r"(?P<marker>\brobotcode\b)\s*:\s*(?P<rule>\b\w+\b)")\<close>
\<close>

definition ROBOTCODE_PATTERN :: re where
  "ROBOTCODE_PATTERN =
     Seq (Grp ''marker'' (Seq Wordb (Seq (Str ''robotcode'') Wordb)))
      (Seq (Rep Space 0)
        (Seq (Lit CHR '':'')
          (Seq (Rep Space 0) (Grp ''rule'' (Seq Wordb (Seq (Rep Word 1) Wordb))))))"

section \<open>Exceptions, diagnostics, tokens and keyword descriptors\<close>

text \<open>
  A Python exception is kept with what the analyzer reads of it: which \<^verbatim>\<open>except\<close> clause
  catches it (cancellation, the two fatal signals, or anything else), the
  \<^verbatim>\<open>__qualname__\<close> of its type and its \<^verbatim>\<open>str()\<close>.
\<close>

datatype exn_class = CancelledError | SystemExit | KeyboardInterrupt | OtherException

record exn =
  exn_class :: exn_class
  exn_qualname :: string
  exn_message :: string

text \<open>\<^verbatim>\<open>except (asyncio.CancelledError, SystemExit, KeyboardInterrupt): raise\<close>\<close>

definition is_reraised :: "exn \<Rightarrow> bool" where
  "is_reraised e \<longleftrightarrow> exn_class e \<in> {CancelledError, SystemExit, KeyboardInterrupt}"

definition IndexError :: exn where
  "IndexError = \<lparr>exn_class = OtherException, exn_qualname = ''IndexError'',
                  exn_message = ''list index out of range''\<rparr>"

text \<open>
  What reading \<^verbatim>\<open>token.value\<close> raises when the token is \<^verbatim>\<open>None\<close>; the message is
  \<^verbatim>\<open>'NoneType' object has no attribute 'value'\<close>.
\<close>

definition AttributeError :: exn where
  "AttributeError = \<lparr>exn_class = OtherException, exn_qualname = ''AttributeError'',
                      exn_message = [CHR 0x27] @ ''NoneType'' @ [CHR 0x27]
                        @ '' object has no attribute '' @ [CHR 0x27] @ ''value'' @ [CHR 0x27]\<rparr>"

text \<open>
  What a call does: it returns a value, it raises, or (for the two functions that call
  each other, which are defined with a call budget) it runs out of budget. Every function
  takes the analyzer's state and gives it back, also when it raises: the diagnostics
  appended before an exception stay in the list.
\<close>

datatype 'a outcome = Return 'a | Raise exn | OutOfFuel

datatype DiagnosticSeverity = ERROR | WARNING | INFORMATION | HINT

datatype DiagnosticTag = Unnecessary | Deprecated

record Location =
  uri :: string
  loc_range :: Range

record DiagnosticRelatedInformation =
  location :: Location
  rel_message :: string

record Diagnostic =
  range :: Range
  message :: string
  severity :: "DiagnosticSeverity option"
  code :: "string option"
  code_description :: "string option"
  source :: "string option"
  tags :: "DiagnosticTag list option"
  related_information :: "DiagnosticRelatedInformation list option"
  data :: "string option"

datatype token_type = KEYWORD | NAME | ARGUMENT | ASSIGN | TESTCASE_NAME | KEYWORD_NAME
  | SEPARATOR | EOL

record token =
  tok_type :: token_type
  "value" :: string
  tok_pos :: Position

text \<open>
  Modelled from the spec: \<^verbatim>\<open>range_from_token\<close> (utils/ast.py) gives the range "from the
  token's stored position and len(value)"; \<^verbatim>\<open>range_from_node_or_token\<close> prefers the
  token's range if a token is present, else the node's range.
\<close>

definition range_from_token :: "token \<Rightarrow> Range" where
  "range_from_token t =
     \<lparr>start = tok_pos t,
      end_pos = \<lparr>line = line (tok_pos t),
                 character = character (tok_pos t) + int (length (value t))\<rparr>\<rparr>"

text \<open>
  Modelled from the spec: a token is variable-bearing iff its value begins with one of
  the characters \<^verbatim>\<open>$\<close>, \<^verbatim>\<open>@\<close>, \<^verbatim>\<open>&\<close>, \<^verbatim>\<open>%\<close> and an opening brace, and contains a closing brace;
  \<^verbatim>\<open>is_not_variable_token\<close> (utils/ast.py) is its negation. The analyzer takes the
  predicate as a parameter; this one instantiates it in the examples.
\<close>

definition spec_is_variable_token :: "token \<Rightarrow> bool" where
  "spec_is_variable_token t \<longleftrightarrow>
     (case value t of
        c # d # rest \<Rightarrow> c \<in> set ''$@&%'' \<and> d = CHR ''{'' \<and> CHR ''}'' \<in> set rest
      | _ \<Rightarrow> False)"

text \<open>
  The statements and blocks of the parsed file. A statement carries its tokens; a block
  (test case, keyword, section, file) carries the tokens of its header statement and its
  body. \<^verbatim>\<open>get_token\<close>, \<^verbatim>\<open>get_tokens\<close>, \<^verbatim>\<open>get_value\<close> and \<^verbatim>\<open>get_values\<close> are the
  accessors of Robot Framework's \<^verbatim>\<open>Statement\<close>: the first token of a type, all of them,
  and their values.
\<close>

datatype node_class = KeywordCall | Fixture | TestTemplate | Template | TestCase | Keyword
  | Arguments | OtherNode

datatype node = Node (node_class: node_class) (tokens: "token list") (body: "node list")
  (range_from_node: Range)

definition get_tokens :: "token_type \<Rightarrow> node \<Rightarrow> token list" where
  "get_tokens ty n = filter (\<lambda>t. tok_type t = ty) (tokens n)"

definition get_token :: "token_type \<Rightarrow> node \<Rightarrow> token option" where
  "get_token ty n = List.find (\<lambda>t. tok_type t = ty) (tokens n)"

definition get_value :: "token_type \<Rightarrow> node \<Rightarrow> string option" where
  "get_value ty n = map_option value (get_token ty n)"

definition get_values :: "token_type \<Rightarrow> node \<Rightarrow> string list" where
  "get_values ty n = map value (get_tokens ty n)"

definition range_from_node_or_token :: "node \<Rightarrow> token option \<Rightarrow> Range" where
  "range_from_node_or_token n t =
     (case t of Some tok \<Rightarrow> range_from_token tok | None \<Rightarrow> range_from_node n)"

text \<open>
  Modelled from the spec: the keyword descriptor of library_doc.py with the fields of the
  spec's data model; its run-keyword classification is the spec's \<^verbatim>\<open>run_keyword_family\<close>,
  and the methods the analyzer calls read it.
\<close>

datatype run_keyword_family = NoFamily | RunKeyword | RunKeywords | RunKeywordIf
  | RunKeywordWithCondition nat

record ImportError =
  err_source :: "string option"
  err_line_no :: "int option"
  err_message :: string

datatype argspec = ArgSpec nat

record keyword_doc =
  kw_name :: string
  libname :: string
  kw_source :: "string option"
  line_no :: int
  arguments :: "argspec option"
  is_deprecated :: bool
  deprecated_message :: "string option"
  is_error_handler :: bool
  error_handler_message :: "string option"
  errors :: "ImportError list"
  run_keyword_family :: run_keyword_family
  args_to_process :: "nat option"
  kw_range :: Range

definition is_any_run_keyword :: "keyword_doc \<Rightarrow> bool" where
  "is_any_run_keyword d \<longleftrightarrow> run_keyword_family d \<noteq> NoFamily"

definition is_run_keyword :: "keyword_doc \<Rightarrow> bool" where
  "is_run_keyword d \<longleftrightarrow> run_keyword_family d = RunKeyword"

definition is_run_keywords :: "keyword_doc \<Rightarrow> bool" where
  "is_run_keywords d \<longleftrightarrow> run_keyword_family d = RunKeywords"

definition is_run_keyword_if :: "keyword_doc \<Rightarrow> bool" where
  "is_run_keyword_if d \<longleftrightarrow> run_keyword_family d = RunKeywordIf"

definition is_run_keyword_with_condition :: "keyword_doc \<Rightarrow> bool" where
  "is_run_keyword_with_condition d \<longleftrightarrow>
     (case run_keyword_family d of RunKeywordWithCondition c \<Rightarrow> True | _ \<Rightarrow> False)"

definition run_keyword_condition_count :: "keyword_doc \<Rightarrow> nat" where
  "run_keyword_condition_count d =
     (case run_keyword_family d of RunKeywordWithCondition c \<Rightarrow> c | _ \<Rightarrow> 0)"

text \<open>An entry of the finder's per-call diagnostics buffer.\<close>

record DiagnosticsEntry =
  entry_message :: string
  entry_severity :: "DiagnosticSeverity option"
  entry_code :: "string option"

text \<open>
  What the analyzer is given and does not define: the lines of the namespace's document
  (\<^verbatim>\<open>None\<close> when there is no document), the keyword finder (its result together with the
  diagnostics buffer it leaves, or the exception it raises), the variable-token
  predicate, Robot Framework's \<^verbatim>\<open>unescape\<close>, the argument resolver (the exception it
  raises, if any), \<^verbatim>\<open>Uri.from_path\<close> and \<^verbatim>\<open>is_embedded_keyword\<close>.
\<close>

record env =
  document :: "string list option"
  find_keyword :: "string option \<Rightarrow> exn + (keyword_doc option \<times> DiagnosticsEntry list)"
  is_not_variable_token :: "token \<Rightarrow> bool"
  unescape :: "string \<Rightarrow> string"
  resolve :: "argspec \<Rightarrow> string list \<Rightarrow> nat option \<Rightarrow> bool \<Rightarrow> exn option"
  uri_from_path :: "string \<Rightarrow> string"
  is_embedded_keyword :: "string \<Rightarrow> bool"

definition DIAGNOSTICS_SOURCE_NAME :: string where
  "DIAGNOSTICS_SOURCE_NAME = ''robotcode''"

record analyzer =
  results :: "Diagnostic list"
  current_testcase_or_keyword_name :: "string option"

section \<open>The rule-suppression scanner and append_diagnostics (analyzer.py)\<close>

text \<open>Python's \<^verbatim>\<open>lines[i]\<close>: a negative index counts from the end; out of range raises.\<close>

definition py_index :: "'a list \<Rightarrow> int \<Rightarrow> exn + 'a" where
  "py_index xs i =
     (if 0 \<le> i \<and> i < int (length xs) then Inr (xs ! nat i)
      else if i < 0 \<and> - int (length xs) \<le> i then Inr (xs ! nat (int (length xs) + i))
      else Inl IndexError)"

text \<open>
  The body of the loop over the lines: the comment is extracted, and if it is not empty
  its \<^verbatim>\<open>robotcode: rule\<close> pairs are scanned for the rule \<^verbatim>\<open>ignore\<close>.
\<close>

definition rules_of :: "string \<Rightarrow> string list" where
  "rules_of c = map (\<lambda>m. the (group c m ''rule'')) (finditer ROBOTCODE_PATTERN c)"

definition line_has_ignore :: "string \<Rightarrow> bool" where
  "line_has_ignore ln =
     (case re_match EXTRACT_COMMENT_PATTERN ln of
        None \<Rightarrow> False
      | Some m \<Rightarrow>
          (case group ln m ''comment'' of
             None \<Rightarrow> False
           | Some c \<Rightarrow> c \<noteq> [] \<and> ''ignore'' \<in> set (rules_of c)))"

fun should_ignore_lines :: "string list \<Rightarrow> int list \<Rightarrow> bool outcome" where
  "should_ignore_lines lines [] = Return False"
| "should_ignore_lines lines (i # rest) =
     (case py_index lines i of
        Inl e \<Rightarrow> Raise e
      | Inr ln \<Rightarrow> if line_has_ignore ln then Return True else should_ignore_lines lines rest)"

definition should_ignore :: "string list option \<Rightarrow> Range \<Rightarrow> bool outcome" where
  "should_ignore doc r =
     (case doc of
        Some lines \<Rightarrow> should_ignore_lines lines [line (start r) .. line (end_pos r)]
      | None \<Rightarrow> Return False)"

definition append_diagnostics :: "env \<Rightarrow> Diagnostic \<Rightarrow> analyzer \<Rightarrow> unit outcome \<times> analyzer" where
  "append_diagnostics ev d st =
     (case should_ignore (document ev) (range d) of
        Return True \<Rightarrow> (Return (), st)
      | Return False \<Rightarrow> (Return (), st\<lparr>results := results st @ [d]\<rparr>)
      | Raise e \<Rightarrow> (Raise e, st)
      | OutOfFuel \<Rightarrow> (OutOfFuel, st))"

text \<open>The diagnostic a call of \<^verbatim>\<open>append_diagnostics\<close> builds from its keyword arguments.\<close>

definition mk_diagnostic ::
  "Range \<Rightarrow> string \<Rightarrow> DiagnosticSeverity option \<Rightarrow> string option \<Rightarrow> string option
   \<Rightarrow> DiagnosticTag list option \<Rightarrow> DiagnosticRelatedInformation list option \<Rightarrow> Diagnostic" where
  "mk_diagnostic r m sev c src tgs rel =
     \<lparr>range = r, message = m, severity = sev, code = c, code_description = None,
      source = src, tags = tgs, related_information = rel, data = None\<rparr>"

section \<open>Keyword-call analysis and the run-keyword state machine (analyzer.py)\<close>

text \<open>Sequencing: the next step runs only after a normal return.\<close>

definition then_do ::
  "'a outcome \<times> analyzer \<Rightarrow> ('a \<Rightarrow> analyzer \<Rightarrow> 'b outcome \<times> analyzer) \<Rightarrow> 'b outcome \<times> analyzer" where
  "then_do r f =
     (case fst r of
        Return x \<Rightarrow> f x (snd r)
      | Raise e \<Rightarrow> (Raise e, snd r)
      | OutOfFuel \<Rightarrow> (OutOfFuel, snd r))"

definition when_do ::
  "bool \<Rightarrow> (analyzer \<Rightarrow> unit outcome \<times> analyzer) \<Rightarrow> analyzer \<Rightarrow> unit outcome \<times> analyzer" where
  "when_do b m st = (if b then m st else (Return (), st))"

fun run_all ::
  "(analyzer \<Rightarrow> unit outcome \<times> analyzer) list \<Rightarrow> analyzer \<Rightarrow> unit outcome \<times> analyzer" where
  "run_all [] st = (Return (), st)"
| "run_all (m # ms) st = then_do (m st) (\<lambda>u. run_all ms)"

text \<open>The four diagnostics of a resolved keyword, and the one of a failed resolver.\<close>

definition finder_diagnostic :: "node \<Rightarrow> token option \<Rightarrow> DiagnosticsEntry \<Rightarrow> Diagnostic" where
  "finder_diagnostic nd keyword_token e =
     mk_diagnostic (range_from_node_or_token nd keyword_token) (entry_message e)
       (entry_severity e) (entry_code e) (Some DIAGNOSTICS_SOURCE_NAME) None None"

definition error_location :: "env \<Rightarrow> keyword_doc \<Rightarrow> ImportError \<Rightarrow> DiagnosticRelatedInformation" where
  "error_location ev doc err =
     (let ln = (case err_line_no err of
                  Some n \<Rightarrow> n - 1
                | None \<Rightarrow> if line_no doc \<ge> 0 then line_no doc else 0);
          pos = \<lparr>line = ln, character = 0\<rparr>
      in \<lparr>location =
            \<lparr>uri = uri_from_path ev
                     (case err_source err of
                        Some p \<Rightarrow> p
                      | None \<Rightarrow> (case kw_source doc of Some p \<Rightarrow> p | None \<Rightarrow> ''/<unknown>'')),
             loc_range = \<lparr>start = pos, end_pos = pos\<rparr>\<rparr>,
          rel_message = err_message err\<rparr>)"

definition definition_errors_diagnostic ::
  "env \<Rightarrow> keyword_doc \<Rightarrow> node \<Rightarrow> token option \<Rightarrow> Diagnostic" where
  "definition_errors_diagnostic ev doc nd keyword_token =
     mk_diagnostic (range_from_node_or_token nd keyword_token)
       ''Keyword definition contains errors.'' (Some ERROR) None
       (Some DIAGNOSTICS_SOURCE_NAME) None (Some (map (error_location ev doc) (errors doc)))"

definition deprecated_diagnostic :: "keyword_doc \<Rightarrow> node \<Rightarrow> token option \<Rightarrow> Diagnostic" where
  "deprecated_diagnostic doc nd keyword_token =
     mk_diagnostic (range_from_node_or_token nd keyword_token)
       (''Keyword '' @ [CHR 0x27] @ kw_name doc @ [CHR 0x27] @ '' is deprecated''
          @ (case deprecated_message doc of
               None \<Rightarrow> []
             | Some m \<Rightarrow> if m = [] then [] else '': '' @ m)
          @ ''.'')
       (Some HINT) None (Some DIAGNOSTICS_SOURCE_NAME) (Some [Deprecated]) None"

definition error_handler_diagnostic :: "keyword_doc \<Rightarrow> node \<Rightarrow> token option \<Rightarrow> Diagnostic" where
  "error_handler_diagnostic doc nd keyword_token =
     mk_diagnostic (range_from_node_or_token nd keyword_token)
       (''Keyword definition contains errors: ''
          @ (case error_handler_message doc of None \<Rightarrow> ''None'' | Some m \<Rightarrow> m))
       (Some ERROR) None (Some DIAGNOSTICS_SOURCE_NAME) None None"

definition exception_diagnostic :: "Range \<Rightarrow> exn \<Rightarrow> Diagnostic" where
  "exception_diagnostic r e =
     mk_diagnostic r (exn_message e) (Some ERROR) (Some (exn_qualname e))
       (Some DIAGNOSTICS_SOURCE_NAME) None None"

definition is_template :: "node \<Rightarrow> bool" where
  "is_template nd \<longleftrightarrow> node_class nd \<in> {Template, TestTemplate}"

text \<open>
  The inner \<^verbatim>\<open>try\<close> of \<^verbatim>\<open>_analyze_keyword_call\<close>: the argument resolver is run; what
  it raises is re-raised if it is a cancellation or a fatal signal, and reported
  otherwise, on the range from the keyword token to the last argument token.
\<close>

definition validate_arguments ::
  "env \<Rightarrow> keyword_doc \<Rightarrow> token \<Rightarrow> token list \<Rightarrow> analyzer \<Rightarrow> unit outcome \<times> analyzer" where
  "validate_arguments ev doc kt argument_tokens st =
     (case (case arguments doc of
              None \<Rightarrow> None
            | Some spec \<Rightarrow>
                resolve ev spec (map value argument_tokens) (args_to_process doc)
                  (\<not> is_any_run_keyword doc)) of
        None \<Rightarrow> (Return (), st)
      | Some e \<Rightarrow>
          if is_reraised e then (Raise e, st)
          else append_diagnostics ev
                 (exception_diagnostic
                    \<lparr>start = start (range_from_token kt),
                     end_pos = (if argument_tokens \<noteq> []
                                then end_pos (range_from_token (last argument_tokens))
                                else end_pos (range_from_token kt))\<rparr> e) st)"

text \<open>
  What the outer \<^verbatim>\<open>try\<close> does after the lookup, in order: the finder's diagnostics are
  appended, then the reports on the keyword found, then its arguments are validated.
\<close>

definition report_steps ::
  "env \<Rightarrow> keyword_doc option \<times> DiagnosticsEntry list \<Rightarrow> node \<Rightarrow> token \<Rightarrow> token list
   \<Rightarrow> (analyzer \<Rightarrow> unit outcome \<times> analyzer) list" where
  "report_steps ev found nd kt argument_tokens =
     map (\<lambda>e. append_diagnostics ev (finder_diagnostic nd (Some kt) e)) (snd found)
     @ (case fst found of
          None \<Rightarrow> []
        | Some doc \<Rightarrow>
            [when_do (errors doc \<noteq> [])
               (append_diagnostics ev (definition_errors_diagnostic ev doc nd (Some kt))),
             when_do (is_deprecated doc)
               (append_diagnostics ev (deprecated_diagnostic doc nd (Some kt))),
             when_do (is_error_handler doc)
               (append_diagnostics ev (error_handler_diagnostic doc nd (Some kt))),
             when_do (\<not> is_template nd) (validate_arguments ev doc kt argument_tokens)])"

text \<open>
  The body of the outer \<^verbatim>\<open>try\<close>. It gives what the body did (\<^verbatim>\<open>Return True\<close>: the early
  \<^verbatim>\<open>return None\<close> on a variable token; \<^verbatim>\<open>Return False\<close>: it ran to its end; or the
  exception), the local variable \<^verbatim>\<open>result\<close> as it stands then, and the state. A missing
  keyword token is Python's \<^verbatim>\<open>None\<close>, whose attributes the variable test cannot read.
\<close>

definition analyze_try_body ::
  "env \<Rightarrow> string option \<Rightarrow> node \<Rightarrow> token option \<Rightarrow> token list \<Rightarrow> analyzer
   \<Rightarrow> bool outcome \<times> keyword_doc option \<times> analyzer" where
  "analyze_try_body ev keyword nd keyword_token argument_tokens st =
     (case keyword_token of
        None \<Rightarrow> (Raise AttributeError, None, st)
      | Some kt \<Rightarrow>
          if \<not> is_not_variable_token ev kt then (Return True, None, st)
          else
            (case find_keyword ev keyword of
               Inl e \<Rightarrow> (Raise e, None, st)
             | Inr found \<Rightarrow>
                 (let r = run_all (report_steps ev found nd kt argument_tokens) st
                  in (fst (then_do r (\<lambda>u s. (Return False, s))), fst found, snd r))))"

text \<open>
  \<^verbatim>\<open>_analyze_keyword_call\<close>, with the nested analysis it calls at its end as a
  parameter \<open>run\<close> (the two functions call each other).
\<close>

type_synonym run_keyword_analysis =
  "keyword_doc option \<Rightarrow> node \<Rightarrow> token list \<Rightarrow> analyzer \<Rightarrow> token list outcome \<times> analyzer"

definition analyze_keyword_call_with ::
  "env \<Rightarrow> run_keyword_analysis \<Rightarrow> string option \<Rightarrow> node \<Rightarrow> token option \<Rightarrow> token list
   \<Rightarrow> bool \<Rightarrow> analyzer \<Rightarrow> keyword_doc option outcome \<times> analyzer" where
  "analyze_keyword_call_with ev run keyword nd keyword_token argument_tokens
       analyse_run_keywords st =
     (case analyze_try_body ev keyword nd keyword_token argument_tokens st of
        (flow, result, st1) \<Rightarrow>
          (case flow of
             Return True \<Rightarrow> (Return None, st1)
           | OutOfFuel \<Rightarrow> (OutOfFuel, st1)
           | _ \<Rightarrow>
               then_do
                 (case flow of
                    Raise e \<Rightarrow>
                      if is_reraised e then (Raise e, st1)
                      else append_diagnostics ev
                             (exception_diagnostic (range_from_node_or_token nd keyword_token) e)
                             st1
                  | _ \<Rightarrow> (Return (), st1))
                 (\<lambda>u st2.
                    if result \<noteq> None \<and> analyse_run_keywords
                    then then_do (run result nd argument_tokens st2)
                           (\<lambda>rest st3. (Return result, st3))
                    else (Return result, st2))))"

text \<open>\<^verbatim>\<open>skip_args\<close> of the Run Keyword If branch: the tokens taken, and what is left.\<close>

fun skip_args :: "token list \<Rightarrow> token list \<times> token list" where
  "skip_args [] = ([], [])"
| "skip_args (t # ts) =
     (if value t \<in> set [''ELSE'', ''ELSE IF''] then ([], t # ts)
      else (t # fst (skip_args ts), snd (skip_args ts)))"

text \<open>\<^verbatim>\<open>xs.index(x)\<close> for an \<open>x\<close> that is in the list.\<close>

definition index_of :: "'a \<Rightarrow> 'a list \<Rightarrow> nat" where
  "index_of x xs = length (takeWhile (\<lambda>e. e \<noteq> x) xs)"

text \<open>The \<^verbatim>\<open>while\<close> loop of the Run Keywords branch.\<close>

fun run_keywords_loop ::
  "env \<Rightarrow> run_keyword_analysis \<Rightarrow> node \<Rightarrow> bool \<Rightarrow> token list \<Rightarrow> analyzer
   \<Rightarrow> token list outcome \<times> analyzer" where
  "run_keywords_loop ev run nd has_and [] st = (Return [], st)"
| "run_keywords_loop ev run nd has_and (t # argument_tokens) st =
     (if value t = ''AND'' then
        then_do
          (append_diagnostics ev
             (mk_diagnostic (range_from_token t) (''Incorrect use of '' @ value t) (Some ERROR)
                None (Some DIAGNOSTICS_SOURCE_NAME) None None) st)
          (\<lambda>u. run_keywords_loop ev run nd has_and argument_tokens)
      else if \<not> is_not_variable_token ev t then
        run_keywords_loop ev run nd has_and argument_tokens st
      else
        (case List.find (\<lambda>e. value e = ''AND'') argument_tokens of
           Some and_token \<Rightarrow>
             then_do
               (analyze_keyword_call_with ev run (Some (unescape ev (value t))) nd (Some t)
                  (take (index_of and_token argument_tokens) argument_tokens) True st)
               (\<lambda>d. run_keywords_loop ev run nd True
                       (drop (index_of and_token argument_tokens + 1) argument_tokens))
         | None \<Rightarrow>
             if has_and then
               then_do
                 (analyze_keyword_call_with ev run (Some (unescape ev (value t))) nd (Some t)
                    argument_tokens True st)
                 (\<lambda>d. run_keywords_loop ev run nd has_and [])
             else
               then_do
                 (analyze_keyword_call_with ev run (Some (unescape ev (value t))) nd (Some t)
                    [] True st)
                 (\<lambda>d. run_keywords_loop ev run nd has_and argument_tokens)))"

text \<open>
  \<^verbatim>\<open>_analyse_run_keyword\<close> and the \<^verbatim>\<open>while\<close> loop over the ELSE and ELSE IF branches
  of its Run Keyword If case. The two call each other and \<^verbatim>\<open>_analyze_keyword_call\<close>;
  their bodies are written first, with the functions they call as parameters \<open>run\<close>
  (\<^verbatim>\<open>_analyse_run_keyword\<close>) and \<open>loop\<close> (the next iteration of the \<^verbatim>\<open>while\<close> loop).
\<close>

type_synonym else_loop_fun =
  "node \<Rightarrow> token list \<Rightarrow> analyzer \<Rightarrow> token list outcome \<times> analyzer"

definition analyse_run_keyword_body ::
  "env \<Rightarrow> run_keyword_analysis \<Rightarrow> else_loop_fun \<Rightarrow> keyword_doc option \<Rightarrow> node \<Rightarrow> token list
   \<Rightarrow> analyzer \<Rightarrow> token list outcome \<times> analyzer" where
  "analyse_run_keyword_body ev run loop keyword_doc nd argument_tokens st =
     (case keyword_doc of
        None \<Rightarrow> (Return argument_tokens, st)
      | Some doc \<Rightarrow>
          if \<not> is_any_run_keyword doc then (Return argument_tokens, st)
          else if is_run_keyword doc \<and> length argument_tokens > 0
                  \<and> is_not_variable_token ev (argument_tokens ! 0) then
            then_do
              (analyze_keyword_call_with ev run
                 (Some (unescape ev (value (argument_tokens ! 0)))) nd
                 (Some (argument_tokens ! 0)) (drop 1 argument_tokens) True st)
              (\<lambda>d s. (Return (drop 1 argument_tokens), s))
          else if is_run_keyword_with_condition doc
                  \<and> length argument_tokens > run_keyword_condition_count doc
                  \<and> is_not_variable_token ev (argument_tokens ! run_keyword_condition_count doc)
          then
            (let cond_count = run_keyword_condition_count doc in
             then_do
               (analyze_keyword_call_with ev run
                  (Some (unescape ev (value (argument_tokens ! cond_count)))) nd
                  (Some (argument_tokens ! cond_count))
                  (drop (cond_count + 1) argument_tokens) True st)
               (\<lambda>d s. (Return (drop (cond_count + 1) argument_tokens), s)))
          else if is_run_keywords doc then
            run_keywords_loop ev run nd False argument_tokens st
          else if is_run_keyword_if doc \<and> length argument_tokens > 1 then
            (case find_keyword ev (Some (value (argument_tokens ! 1))) of
               Inl e \<Rightarrow> (Raise e, st)
             | Inr found \<Rightarrow>
                 then_do
                   (if fst found \<noteq> None \<and> is_any_run_keyword (the (fst found)) then
                      run (fst found) nd (drop 2 argument_tokens) st
                    else
                      (let kwt = argument_tokens ! 1;
                           args = fst (skip_args (drop 2 argument_tokens));
                           rest = snd (skip_args (drop 2 argument_tokens))
                       in if is_not_variable_token ev kwt then
                            then_do
                              (analyze_keyword_call_with ev run
                                 (Some (unescape ev (value kwt))) nd (Some kwt) args False st)
                              (\<lambda>d s. (Return rest, s))
                          else (Return rest, st)))
                   (\<lambda>rest s. loop nd rest s))
          else (Return argument_tokens, st))"

definition else_loop_body ::
  "env \<Rightarrow> run_keyword_analysis \<Rightarrow> else_loop_fun \<Rightarrow> node \<Rightarrow> token list \<Rightarrow> analyzer
   \<Rightarrow> token list outcome \<times> analyzer" where
  "else_loop_body ev run loop nd argument_tokens st =
     (if argument_tokens = [] then (Return argument_tokens, st)
      else if value (argument_tokens ! 0) = ''ELSE'' \<and> length argument_tokens > 1 then
        then_do
          (analyze_keyword_call_with ev run
             (Some (unescape ev (value (argument_tokens ! 1)))) nd (Some (argument_tokens ! 1))
             (drop 2 argument_tokens) False st)
          (\<lambda>result s.
             then_do
               (if result \<noteq> None \<and> is_any_run_keyword (the result) then
                  run result nd (drop 2 argument_tokens) s
                else (Return (drop 2 argument_tokens), s))
               (\<lambda>rest s'. (Return (snd (skip_args rest)), s')))
      else if value (argument_tokens ! 0) = ''ELSE IF'' \<and> length argument_tokens > 2 then
        then_do
          (analyze_keyword_call_with ev run
             (Some (unescape ev (value (argument_tokens ! 2)))) nd (Some (argument_tokens ! 2))
             (drop 3 argument_tokens) False st)
          (\<lambda>result s.
             then_do
               (if result \<noteq> None \<and> is_any_run_keyword (the result) then
                  run result nd (drop 3 argument_tokens) s
                else (Return (drop 3 argument_tokens), s))
               (\<lambda>rest s'. loop nd (snd (skip_args rest)) s'))
      else (Return argument_tokens, st))"

text \<open>
  The recursion, with a budget of nested calls: each call of one of the two functions
  spends one unit, and a call without budget does not return.
\<close>

fun analyse_run_keyword_fuel ::
  "nat \<Rightarrow> env \<Rightarrow> keyword_doc option \<Rightarrow> node \<Rightarrow> token list \<Rightarrow> analyzer
   \<Rightarrow> token list outcome \<times> analyzer"
and else_loop_fuel ::
  "nat \<Rightarrow> env \<Rightarrow> node \<Rightarrow> token list \<Rightarrow> analyzer \<Rightarrow> token list outcome \<times> analyzer" where
  "analyse_run_keyword_fuel 0 ev keyword_doc nd argument_tokens st = (OutOfFuel, st)"
| "analyse_run_keyword_fuel (Suc n) ev keyword_doc nd argument_tokens st =
     analyse_run_keyword_body ev (\<lambda>d m a s. analyse_run_keyword_fuel n ev d m a s)
       (\<lambda>m a s. else_loop_fuel n ev m a s) keyword_doc nd argument_tokens st"
| "else_loop_fuel 0 ev nd argument_tokens st = (OutOfFuel, st)"
| "else_loop_fuel (Suc n) ev nd argument_tokens st =
     else_loop_body ev (\<lambda>d m a s. analyse_run_keyword_fuel n ev d m a s)
       (\<lambda>m a s. else_loop_fuel n ev m a s) nd argument_tokens st"

text \<open>
  The functions as the analyzer calls them. A budget above the number of argument tokens
  is never used up, and any such budget gives the same result (\<open>fuel_fine\<close> and
  \<open>fuel_independent\<close> below), so that the functions satisfy the recursion equations of
  the source (\<open>analyse_run_keyword_unfold\<close>, \<open>else_loop_unfold\<close>).
\<close>

definition analyse_run_keyword ::
  "env \<Rightarrow> keyword_doc option \<Rightarrow> node \<Rightarrow> token list \<Rightarrow> analyzer
   \<Rightarrow> token list outcome \<times> analyzer" where
  "analyse_run_keyword ev keyword_doc nd argument_tokens st =
     analyse_run_keyword_fuel (Suc (length argument_tokens)) ev keyword_doc nd argument_tokens st"

definition else_loop ::
  "env \<Rightarrow> node \<Rightarrow> token list \<Rightarrow> analyzer \<Rightarrow> token list outcome \<times> analyzer" where
  "else_loop ev nd argument_tokens st =
     else_loop_fuel (Suc (length argument_tokens)) ev nd argument_tokens st"

definition analyze_keyword_call ::
  "env \<Rightarrow> string option \<Rightarrow> node \<Rightarrow> token option \<Rightarrow> token list \<Rightarrow> bool \<Rightarrow> analyzer
   \<Rightarrow> keyword_doc option outcome \<times> analyzer" where
  "analyze_keyword_call ev keyword nd keyword_token argument_tokens analyse_run_keywords st =
     analyze_keyword_call_with ev (analyse_run_keyword ev) keyword nd keyword_token
       argument_tokens analyse_run_keywords st"

section \<open>The visitor (analyzer.py)\<close>

text \<open>Python's \<^verbatim>\<open>not x\<close> for an optional string: \<^verbatim>\<open>None\<close> and the empty string are false.\<close>

definition falsy :: "string option \<Rightarrow> bool" where
  "falsy x \<longleftrightarrow> x = None \<or> x = Some []"

text \<open>
  The visit methods up to their final \<^verbatim>\<open>generic_visit\<close>, which \<open>visit\<close> below adds.
  \<^verbatim>\<open>assign\<close>, \<^verbatim>\<open>keyword\<close>, \<^verbatim>\<open>name\<close> and \<^verbatim>\<open>value\<close> are Robot Framework's properties of
  the statements: the values of the ASSIGN tokens, and of the first KEYWORD or NAME token.
\<close>

definition visit_KeywordCall :: "env \<Rightarrow> node \<Rightarrow> analyzer \<Rightarrow> unit outcome \<times> analyzer" where
  "visit_KeywordCall ev nd st =
     (let keyword_token = get_token KEYWORD nd in
      then_do
        (if get_values ASSIGN nd \<noteq> [] \<and> falsy (get_value KEYWORD nd) then
           append_diagnostics ev
             (mk_diagnostic (range_from_node_or_token nd (get_token ASSIGN nd))
                ''Keyword name cannot be empty.'' (Some ERROR) (Some ''KeywordError'')
                (Some DIAGNOSTICS_SOURCE_NAME) None None) st
         else
           then_do
             (analyze_keyword_call ev (get_value KEYWORD nd) nd keyword_token
                (get_tokens ARGUMENT nd) True st)
             (\<lambda>d s. (Return (), s)))
        (\<lambda>u s.
           if falsy (current_testcase_or_keyword_name s) then
             append_diagnostics ev
               (mk_diagnostic (range_from_node_or_token nd (get_token ASSIGN nd))
                  ''Code is unreachable.'' (Some HINT) None
                  (Some DIAGNOSTICS_SOURCE_NAME) (Some [Unnecessary]) None) s
           else (Return (), s)))"

definition visit_Fixture :: "env \<Rightarrow> node \<Rightarrow> analyzer \<Rightarrow> unit outcome \<times> analyzer" where
  "visit_Fixture ev nd st =
     (case get_token NAME nd of
        None \<Rightarrow> (Return (), st)
      | Some keyword_token \<Rightarrow>
          if is_not_variable_token ev keyword_token then
            then_do
              (analyze_keyword_call ev (get_value NAME nd) nd (Some keyword_token)
                 (get_tokens ARGUMENT nd) True st)
              (\<lambda>d s. (Return (), s))
          else (Return (), st))"

definition visit_Template :: "env \<Rightarrow> node \<Rightarrow> analyzer \<Rightarrow> unit outcome \<times> analyzer" where
  "visit_Template ev nd st =
     (case get_token NAME nd of
        None \<Rightarrow> (Return (), st)
      | Some keyword_token \<Rightarrow>
          if is_not_variable_token ev keyword_token then
            then_do
              (analyze_keyword_call ev (get_value NAME nd) nd (Some keyword_token) [] True st)
              (\<lambda>d s. (Return (), s))
          else (Return (), st))"

definition visit_TestCase :: "env \<Rightarrow> node \<Rightarrow> analyzer \<Rightarrow> unit outcome \<times> analyzer" where
  "visit_TestCase ev nd st =
     (if falsy (get_value TESTCASE_NAME nd) then
        append_diagnostics ev
          (mk_diagnostic (range_from_node_or_token nd (get_token TESTCASE_NAME nd))
             ''Test case name cannot be empty.'' (Some ERROR) (Some ''KeywordError'')
             (Some DIAGNOSTICS_SOURCE_NAME) None None) st
      else (Return (), st))"

definition has_arguments :: "node \<Rightarrow> bool" where
  "has_arguments v \<longleftrightarrow> node_class v = Arguments \<and> length (get_values ARGUMENT v) > 0"

definition visit_Keyword :: "env \<Rightarrow> node \<Rightarrow> analyzer \<Rightarrow> unit outcome \<times> analyzer" where
  "visit_Keyword ev nd st =
     (if \<not> falsy (get_value KEYWORD_NAME nd) then
        (if is_embedded_keyword ev (the (get_value KEYWORD_NAME nd))
            \<and> (\<exists>v \<in> set (body nd). has_arguments v) then
           append_diagnostics ev
             (mk_diagnostic (range_from_node_or_token nd (get_token KEYWORD_NAME nd))
                ''Keyword cannot have both normal and embedded arguments.'' (Some ERROR)
                (Some ''KeywordError'') (Some DIAGNOSTICS_SOURCE_NAME) None None) st
         else (Return (), st))
      else
        append_diagnostics ev
          (mk_diagnostic (range_from_node_or_token nd (get_token KEYWORD_NAME nd))
             ''Keyword name cannot be empty.'' (Some ERROR) (Some ''KeywordError'')
             (Some DIAGNOSTICS_SOURCE_NAME) None None) st)"

text \<open>\<^verbatim>\<open>try: ... finally: self.current_testcase_or_keyword_name = None\<close>\<close>

definition finally_reset :: "unit outcome \<times> analyzer \<Rightarrow> unit outcome \<times> analyzer" where
  "finally_reset r = (fst r, (snd r)\<lparr>current_testcase_or_keyword_name := None\<rparr>)"

text \<open>
  Modelled from the spec: the visitor of utils/async_ast.py "dispatches by node kind";
  a kind without a visit method, and every visit method at its end, visits the child
  nodes in order (\<^verbatim>\<open>generic_visit\<close>). The header statement of a block has no visit
  method and no children, so visiting it does nothing.
\<close>

fun visit :: "env \<Rightarrow> node \<Rightarrow> analyzer \<Rightarrow> unit outcome \<times> analyzer"
and generic_visit :: "env \<Rightarrow> node list \<Rightarrow> analyzer \<Rightarrow> unit outcome \<times> analyzer" where
  "visit ev (Node cls toks children rng) st =
     (case cls of
        KeywordCall \<Rightarrow>
          then_do (visit_KeywordCall ev (Node cls toks children rng) st)
            (\<lambda>u s. generic_visit ev children s)
      | Fixture \<Rightarrow>
          then_do (visit_Fixture ev (Node cls toks children rng) st)
            (\<lambda>u s. generic_visit ev children s)
      | TestTemplate \<Rightarrow>
          then_do (visit_Template ev (Node cls toks children rng) st)
            (\<lambda>u s. generic_visit ev children s)
      | Template \<Rightarrow>
          then_do (visit_Template ev (Node cls toks children rng) st)
            (\<lambda>u s. generic_visit ev children s)
      | TestCase \<Rightarrow>
          then_do (visit_TestCase ev (Node cls toks children rng) st)
            (\<lambda>u s. finally_reset
                     (generic_visit ev children
                        (s\<lparr>current_testcase_or_keyword_name :=
                             get_value TESTCASE_NAME (Node cls toks children rng)\<rparr>)))
      | Keyword \<Rightarrow>
          then_do (visit_Keyword ev (Node cls toks children rng) st)
            (\<lambda>u s. finally_reset
                     (generic_visit ev children
                        (s\<lparr>current_testcase_or_keyword_name :=
                             get_value KEYWORD_NAME (Node cls toks children rng)\<rparr>)))
      | _ \<Rightarrow> generic_visit ev children st)"
| "generic_visit ev [] st = (Return (), st)"
| "generic_visit ev (n # ns) st = then_do (visit ev n st) (\<lambda>u s. generic_visit ev ns s)"

text \<open>\<^verbatim>\<open>Analyzer.get\<close>: a fresh result list, no enclosing block, one visit of the model.\<close>

definition Analyzer_get :: "env \<Rightarrow> node \<Rightarrow> Diagnostic list outcome" where
  "Analyzer_get ev model =
     (case visit ev model \<lparr>results = [], current_testcase_or_keyword_name = None\<rparr> of
        (Return u, st) \<Rightarrow> Return (results st)
      | (Raise e, st) \<Rightarrow> Raise e
      | (OutOfFuel, st) \<Rightarrow> OutOfFuel)"

section \<open>The definition resolver (definition.py)\<close>

record LocationLink =
  origin_selection_range :: Range
  target_uri :: string
  target_range :: Range
  target_selection_range :: Range

text \<open>
  What the resolver is given and does not define: the keyword lookup of the document's
  namespace (\<^verbatim>\<open>None\<close> when there is no namespace), the variable-token predicate,
  \<^verbatim>\<open>Uri.from_path\<close> and the name tables of utils/ast.py.
\<close>

record resolver =
  namespace_find_keyword :: "(string option \<Rightarrow> exn + keyword_doc option) option"
  is_non_variable_token :: "token \<Rightarrow> bool"
  from_path :: "string \<Rightarrow> string"
  RUN_KEYWORD_NAMES :: "string list"
  RUN_KEYWORD_WITH_CONDITION_NAMES :: "string list"
  RUN_KEYWORD_IF_NAME :: string
  RUN_KEYWORDS_NAME :: string

definition location_link :: "resolver \<Rightarrow> node \<Rightarrow> token \<Rightarrow> keyword_doc \<Rightarrow> LocationLink" where
  "location_link rs nd t keyword_doc =
     \<lparr>origin_selection_range = range_from_node_or_token nd (Some t),
      target_uri = from_path rs (the (kw_source keyword_doc)),
      target_range = kw_range keyword_doc,
      target_selection_range = kw_range keyword_doc\<rparr>"

text \<open>
  One lookup of a nested keyword name at the token \<open>t\<close>: the exception of the lookup,
  \<^verbatim>\<open>return None\<close> when nothing with a source is found, and the keyword otherwise.
\<close>

definition lookup ::
  "(string option \<Rightarrow> exn + keyword_doc option) \<Rightarrow> string option
   \<Rightarrow> exn + LocationLink list option + keyword_doc" where
  "lookup fk name =
     (case fk name of
        Inl e \<Rightarrow> Inl e
      | Inr None \<Rightarrow> Inr (Inl None)
      | Inr (Some d) \<Rightarrow> if kw_source d = None then Inr (Inl None) else Inr (Inr d))"

text \<open>The \<^verbatim>\<open>while\<close> loop over the argument tokens of a BuiltIn run-keyword.\<close>

function resolve_in_arguments ::
  "resolver \<Rightarrow> (string option \<Rightarrow> exn + keyword_doc option) \<Rightarrow> node \<Rightarrow> Position
   \<Rightarrow> keyword_doc \<Rightarrow> token list \<Rightarrow> exn + LocationLink list option" where
  "resolve_in_arguments rs fk nd position keyword_doc argument_tokens =
     (if \<not> (libname keyword_doc = ''BuiltIn'' \<and> argument_tokens \<noteq> []) then Inr None
      else if kw_name keyword_doc \<in> set (RUN_KEYWORD_NAMES rs) \<and> length argument_tokens > 0
              \<and> is_non_variable_token rs (argument_tokens ! 0) then
        (case lookup fk (Some (value (argument_tokens ! 0))) of
           Inl e \<Rightarrow> Inl e
         | Inr (Inl r) \<Rightarrow> Inr r
         | Inr (Inr d) \<Rightarrow>
             if is_in_range position (range_from_token (argument_tokens ! 0)) True
             then Inr (Some [location_link rs nd (argument_tokens ! 0) d])
             else resolve_in_arguments rs fk nd position d (drop 1 argument_tokens))
      else if kw_name keyword_doc \<in> set (RUN_KEYWORD_WITH_CONDITION_NAMES rs)
              \<and> length argument_tokens > 1
              \<and> is_non_variable_token rs (argument_tokens ! 1) then
        (case lookup fk (Some (value (argument_tokens ! 1))) of
           Inl e \<Rightarrow> Inl e
         | Inr (Inl r) \<Rightarrow> Inr r
         | Inr (Inr d) \<Rightarrow>
             if is_in_range position (range_from_token (argument_tokens ! 1)) True
             then Inr (Some [location_link rs nd (argument_tokens ! 1) d])
             else resolve_in_arguments rs fk nd position d (drop 2 argument_tokens))
      else if kw_name keyword_doc = RUN_KEYWORD_IF_NAME rs \<and> length argument_tokens > 1
              \<and> is_non_variable_token rs (argument_tokens ! 1) then
        (case lookup fk (Some (value (argument_tokens ! 1))) of
           Inl e \<Rightarrow> Inl e
         | Inr (Inl r) \<Rightarrow> Inr r
         | Inr (Inr d) \<Rightarrow>
             if is_in_range position (range_from_token (argument_tokens ! 1)) True
             then Inr (Some [location_link rs nd (argument_tokens ! 1) d])
             else resolve_in_arguments rs fk nd position d (drop 2 argument_tokens))
      else if kw_name keyword_doc = RUN_KEYWORDS_NAME rs then
        (case List.find (\<lambda>t. is_in_range position (range_from_token t) True
                              \<and> is_non_variable_token rs t) argument_tokens of
           Some t \<Rightarrow>
             (case lookup fk (Some (value t)) of
                Inl e \<Rightarrow> Inl e
              | Inr (Inl r) \<Rightarrow> Inr r
              | Inr (Inr d) \<Rightarrow> Inr (Some [location_link rs nd t d]))
         | None \<Rightarrow> Inr None)
      else Inr None)"
  by pat_completeness auto
termination
  by (relation "measure (\<lambda>(rs, fk, nd, position, keyword_doc, argument_tokens).
        length argument_tokens)") auto

definition definition_KeywordCall_or_Fixture ::
  "resolver \<Rightarrow> string option \<Rightarrow> token_type \<Rightarrow> node \<Rightarrow> Position
   \<Rightarrow> exn + LocationLink list option" where
  "definition_KeywordCall_or_Fixture rs keyword token_type nd position =
     (if falsy keyword then Inr None
      else
        (case get_token token_type nd of
           None \<Rightarrow> Inr None
         | Some keyword_token \<Rightarrow>
             (case namespace_find_keyword rs of
                None \<Rightarrow> Inr None
              | Some fk \<Rightarrow>
                  (case lookup fk keyword of
                     Inl e \<Rightarrow> Inl e
                   | Inr (Inl r) \<Rightarrow> Inr r
                   | Inr (Inr keyword_doc) \<Rightarrow>
                       if is_in_range position (range_from_token keyword_token) True
                       then Inr (Some [location_link rs nd keyword_token keyword_doc])
                       else resolve_in_arguments rs fk nd position keyword_doc
                              (get_tokens ARGUMENT nd)))))"

definition definition_KeywordCall ::
  "resolver \<Rightarrow> node \<Rightarrow> Position \<Rightarrow> exn + LocationLink list option" where
  "definition_KeywordCall rs nd position =
     definition_KeywordCall_or_Fixture rs (get_value KEYWORD nd) KEYWORD nd position"

definition definition_Fixture ::
  "resolver \<Rightarrow> node \<Rightarrow> Position \<Rightarrow> exn + LocationLink list option" where
  "definition_Fixture rs nd position =
     definition_KeywordCall_or_Fixture rs (get_value NAME nd) NAME nd position"

section \<open>Notions used in the proofs\<close>

text \<open>
  A call of the state machine on the tokens \<open>A\<close> went well: it did not run out of budget,
  and if it returned, it returned a suffix of \<open>A\<close>.
\<close>

definition fine :: "token list outcome \<times> analyzer \<Rightarrow> token list \<Rightarrow> bool" where
  "fine r A \<longleftrightarrow>
     (case fst r of Return R \<Rightarrow> suffix R A | Raise e \<Rightarrow> True | OutOfFuel \<Rightarrow> False)"

text \<open>The guards of the first two branches of \<^verbatim>\<open>_analyse_run_keyword\<close>.\<close>

definition takes_run_keyword :: "env \<Rightarrow> keyword_doc \<Rightarrow> token list \<Rightarrow> bool" where
  "takes_run_keyword ev doc A \<longleftrightarrow>
     is_run_keyword doc \<and> length A > 0 \<and> is_not_variable_token ev (A ! 0)"

definition takes_with_condition :: "env \<Rightarrow> keyword_doc \<Rightarrow> token list \<Rightarrow> bool" where
  "takes_with_condition ev doc A \<longleftrightarrow>
     is_run_keyword_with_condition doc \<and> length A > run_keyword_condition_count doc
     \<and> is_not_variable_token ev (A ! run_keyword_condition_count doc)"

text \<open>
  The first step of the Run Keyword If branch: the keyword after the condition is a
  run-keyword itself and is analysed on the rest, or it is analysed with the arguments up
  to the next ELSE or ELSE IF.
\<close>

definition run_keyword_if_first ::
  "env \<Rightarrow> run_keyword_analysis \<Rightarrow> keyword_doc option \<Rightarrow> node \<Rightarrow> token list \<Rightarrow> analyzer
   \<Rightarrow> token list outcome \<times> analyzer" where
  "run_keyword_if_first ev run found nd A st =
     (if found \<noteq> None \<and> is_any_run_keyword (the found) then run found nd (drop 2 A) st
      else
        (let kwt = A ! 1;
             args = fst (skip_args (drop 2 A));
             rest = snd (skip_args (drop 2 A))
         in if is_not_variable_token ev kwt then
              then_do
                (analyze_keyword_call_with ev run
                   (Some (unescape ev (value kwt))) nd (Some kwt) args False st)
                (\<lambda>d s. (Return rest, s))
            else (Return rest, st)))"

text \<open>
  What a call may do to the analyzer's state: append diagnostics, and nothing else.
\<close>

definition frame :: "analyzer \<Rightarrow> analyzer \<Rightarrow> bool" where
  "frame st st' \<longleftrightarrow>
     prefix (results st) (results st')
     \<and> current_testcase_or_keyword_name st' = current_testcase_or_keyword_name st"

text \<open>
  What a visit may do to the analyzer's state: append diagnostics, and leave the name of
  the enclosing block or reset it.
\<close>

definition grows :: "analyzer \<Rightarrow> analyzer \<Rightarrow> bool" where
  "grows st st' \<longleftrightarrow>
     prefix (results st) (results st')
     \<and> (current_testcase_or_keyword_name st' = current_testcase_or_keyword_name st
        \<or> current_testcase_or_keyword_name st' = None)"

text \<open>
  The nodes that lie inside a block and in no block nested in it: from a node the
  traversal reaches the node itself and, unless the node opens a block of its own (which
  stores its own name), what it reaches from the child nodes.
\<close>

fun reached :: "node \<Rightarrow> node list" where
  "reached (Node cls toks children rng) =
     Node cls toks children rng
     # (if cls = TestCase \<or> cls = Keyword then [] else concat (map reached children))"

definition inside :: "node \<Rightarrow> node list" where
  "inside nd = concat (map reached (body nd))"

definition unreachable_hint :: "node \<Rightarrow> Diagnostic" where
  "unreachable_hint nd =
     \<lparr>range = range_from_node_or_token nd (get_token ASSIGN nd),
      message = ''Code is unreachable.'', severity = Some HINT, code = None,
      code_description = None, source = Some ''robotcode'', tags = Some [Unnecessary],
      related_information = None, data = None\<rparr>"

definition empty_name_error :: "Range \<Rightarrow> string \<Rightarrow> Diagnostic" where
  "empty_name_error r m =
     \<lparr>range = r, message = m, severity = Some ERROR, code = Some ''KeywordError'',
      code_description = None, source = Some ''robotcode'', tags = None,
      related_information = None, data = None\<rparr>"

text \<open>
  The suppression criterion in the words of the specification: a line qualifies iff it
  matches the comment pattern and the comment's body contains a match of
  \<^verbatim>\<open>\brobotcode\s*:\s*ignore\b\<close>.
\<close>

definition SPEC_IGNORE_PATTERN :: re where
  "SPEC_IGNORE_PATTERN =
     Seq Wordb
      (Seq (Str ''robotcode'')
        (Seq (Rep Space 0)
          (Seq (Lit CHR '':'')
            (Seq (Rep Space 0) (Seq (Str ''ignore'') Wordb)))))"

definition spec_line_qualifies :: "string \<Rightarrow> bool" where
  "spec_line_qualifies ln =
     (case re_match EXTRACT_COMMENT_PATTERN ln of
        None \<Rightarrow> False
      | Some m \<Rightarrow>
          (case group ln m ''comment'' of
             None \<Rightarrow> False
           | Some c \<Rightarrow> re_search SPEC_IGNORE_PATTERN c \<noteq> None))"







section \<open>Example inputs\<close>

text \<open>
  A small namespace for the examples: the BuiltIn keywords \<^verbatim>\<open>Log\<close>, \<^verbatim>\<open>Run Keyword\<close>,
  \<^verbatim>\<open>Run Keywords\<close>, \<^verbatim>\<open>Run Keyword If\<close> and \<^verbatim>\<open>Wait Until Keyword Succeeds\<close> (two
  condition arguments), the user keywords \<^verbatim>\<open>My Keyword\<close> and \<^verbatim>\<open>Old Keyword\<close> (deprecated)
  and a keyword without a source file; every other name is not found, which the finder
  reports in its diagnostics buffer. There is no document, so
  nothing is suppressed; no escapes; the argument resolver accepts everything.
\<close>

definition example_doc :: "string \<Rightarrow> string \<Rightarrow> string option \<Rightarrow> run_keyword_family \<Rightarrow> keyword_doc" where
  "example_doc name lib src fam =
     \<lparr>kw_name = name, libname = lib, kw_source = src, line_no = 1,
      arguments = None, is_deprecated = False, deprecated_message = None,
      is_error_handler = False, error_handler_message = None, errors = [],
      run_keyword_family = fam, args_to_process = None, kw_range = Range_zero\<rparr>"

definition builtin_doc :: "string \<Rightarrow> run_keyword_family \<Rightarrow> keyword_doc" where
  "builtin_doc name fam = example_doc name ''BuiltIn'' (Some ''/lib/BuiltIn.py'') fam"

definition example_keywords :: "(string \<times> keyword_doc) list" where
  "example_keywords =
     [(''Log'', builtin_doc ''Log'' NoFamily),
      (''Run Keyword'', builtin_doc ''Run Keyword'' RunKeyword),
      (''Run Keywords'', builtin_doc ''Run Keywords'' RunKeywords),
      (''Run Keyword If'', builtin_doc ''Run Keyword If'' RunKeywordIf),
      (''Wait Until Keyword Succeeds'',
         builtin_doc ''Wait Until Keyword Succeeds'' (RunKeywordWithCondition 2)),
      (''My Keyword'', example_doc ''My Keyword'' ''my'' (Some ''/suite/my.resource'') NoFamily),
      (''No Source'', example_doc ''No Source'' ''dyn'' None NoFamily),
      (''Old Keyword'',
         (example_doc ''Old Keyword'' ''my'' (Some ''/suite/my.resource'') NoFamily)
           \<lparr>is_deprecated := True, deprecated_message := Some ''use New Keyword''\<rparr>)]"

definition not_found :: DiagnosticsEntry where
  "not_found = \<lparr>entry_message = ''No keyword found.'', entry_severity = Some ERROR,
                 entry_code = Some ''KeywordError/not_found''\<rparr>"

definition example_finder ::
  "string option \<Rightarrow> exn + (keyword_doc option \<times> DiagnosticsEntry list)" where
  "example_finder name =
     (case name of
        None \<Rightarrow> Inr (None, [not_found])
      | Some n \<Rightarrow>
          (case map_of example_keywords n of
             Some d \<Rightarrow> Inr (Some d, [])
           | None \<Rightarrow> Inr (None, [not_found])))"

definition example_env :: env where
  "example_env =
     \<lparr>document = None, find_keyword = example_finder,
      is_not_variable_token = (\<lambda>t. \<not> spec_is_variable_token t),
      unescape = (\<lambda>s. s), resolve = (\<lambda>spec vals until named. None),
      uri_from_path = (\<lambda>p. ''file://'' @ p), is_embedded_keyword = (\<lambda>n. False)\<rparr>"

text \<open>A finder that fails with a \<^verbatim>\<open>ValueError\<close> on the name \<^verbatim>\<open>Boom\<close>.\<close>

definition ValueError :: exn where
  "ValueError = \<lparr>exn_class = OtherException, exn_qualname = ''ValueError'',
                  exn_message = ''boom''\<rparr>"

definition failing_finder ::
  "string option \<Rightarrow> exn + (keyword_doc option \<times> DiagnosticsEntry list)" where
  "failing_finder name = (if name = Some ''Boom'' then Inl ValueError else example_finder name)"

definition example_resolver :: resolver where
  "example_resolver =
     \<lparr>namespace_find_keyword =
        Some (\<lambda>name. case example_finder name of Inl e \<Rightarrow> Inl e | Inr found \<Rightarrow> Inr (fst found)),
      is_non_variable_token = (\<lambda>t. \<not> spec_is_variable_token t),
      from_path = (\<lambda>p. ''file://'' @ p),
      RUN_KEYWORD_NAMES = [''Run Keyword''],
      RUN_KEYWORD_WITH_CONDITION_NAMES = [''Wait Until Keyword Succeeds''],
      RUN_KEYWORD_IF_NAME = ''Run Keyword If'',
      RUN_KEYWORDS_NAME = ''Run Keywords''\<rparr>"

text \<open>Tokens on line 2 at a given column, and a statement on that line.\<close>

definition token_at :: "token_type \<Rightarrow> string \<Rightarrow> int \<Rightarrow> token" where
  "token_at ty v c = \<lparr>tok_type = ty, value = v, tok_pos = \<lparr>line = 2, character = c\<rparr>\<rparr>"

definition arg_at :: "string \<Rightarrow> int \<Rightarrow> token" where
  "arg_at v c = token_at ARGUMENT v c"

definition statement :: "node_class \<Rightarrow> token list \<Rightarrow> node" where
  "statement cls toks = Node cls toks []
     \<lparr>start = \<lparr>line = 2, character = 0\<rparr>, end_pos = \<lparr>line = 2, character = 80\<rparr>\<rparr>"

definition in_test :: analyzer where
  "in_test = \<lparr>results = [], current_testcase_or_keyword_name = Some ''TC''\<rparr>"



text \<open>
  A test case with an empty name whose body holds a keyword call and a nested statement
  (a FOR loop, say) with a keyword call in its body.
\<close>

definition nested_example :: node where
  "nested_example =
     Node TestCase [token_at TESTCASE_NAME [] 0]
       [statement KeywordCall [token_at KEYWORD ''Log'' 4, arg_at ''hi'' 11],
        Node OtherNode []
          [statement KeywordCall [token_at KEYWORD ''Log'' 8, arg_at ''hi'' 15]] Range_zero]
       Range_zero"

section \<open>Properties of positions\<close>

lemma Position_lt_iff:
  "Position_lt p q \<longleftrightarrow> line p < line q \<or> (line p = line q \<and> character p < character q)"
  by (auto simp: Position_lt_def)

lemma Position_le_iff:
  "Position_le p q \<longleftrightarrow> line p < line q \<or> (line p = line q \<and> character p \<le> character q)"
  by (auto simp: Position_le_def)

lemma Position_gt_iff:
  "Position_gt p q \<longleftrightarrow> line q < line p \<or> (line p = line q \<and> character q < character p)"
  by (auto simp: Position_gt_def)

lemma Position_ge_iff:
  "Position_ge p q \<longleftrightarrow> line q < line p \<or> (line p = line q \<and> character q \<le> character p)"
  by (auto simp: Position_ge_def)

text \<open>
  Claim C9. The comparison operators of \<^verbatim>\<open>Position\<close> are the lexicographic order on
  (line, character): \<^verbatim>\<open><\<close> holds iff the line is smaller, or the lines are equal and the
  character is smaller, and likewise for \<^verbatim>\<open><=\<close>, \<^verbatim>\<open>>\<close> and \<^verbatim>\<open>>=\<close>; the order is total
  (\<^verbatim>\<open><=\<close> is reflexive, antisymmetric, transitive and any two positions are comparable,
  \<^verbatim>\<open><\<close> is its strict part, \<^verbatim>\<open>>\<close> and \<^verbatim>\<open>>=\<close> are the converses). \<^verbatim>\<open>is_in_range\<close> includes
  the start of the range, and includes its end exactly when \<^verbatim>\<open>include_end\<close> is true.
\<close>

theorem Position_order_lexicographic:
  fixes p q r :: Position and rg :: Range
  shows "(Position_lt p q \<longleftrightarrow>
            line p < line q \<or> (line p = line q \<and> character p < character q))
       \<and> (Position_le p q \<longleftrightarrow>
            line p < line q \<or> (line p = line q \<and> character p \<le> character q))
       \<and> (Position_gt p q \<longleftrightarrow>
            line p > line q \<or> (line p = line q \<and> character p > character q))
       \<and> (Position_ge p q \<longleftrightarrow>
            line p > line q \<or> (line p = line q \<and> character p \<ge> character q))
       \<and> Position_le p p
       \<and> (Position_le p q \<and> Position_le q p \<longrightarrow> p = q)
       \<and> (Position_le p q \<and> Position_le q r \<longrightarrow> Position_le p r)
       \<and> (Position_le p q \<or> Position_le q p)
       \<and> (Position_lt p q \<longleftrightarrow> Position_le p q \<and> p \<noteq> q)
       \<and> (Position_gt p q \<longleftrightarrow> Position_lt q p)
       \<and> (Position_ge p q \<longleftrightarrow> Position_le q p)
       \<and> (is_in_range p rg True \<longleftrightarrow> Position_le (start rg) p \<and> Position_le p (end_pos rg))
       \<and> (is_in_range p rg False \<longleftrightarrow> Position_le (start rg) p \<and> Position_lt p (end_pos rg))
       \<and> (Position_le (start rg) (end_pos rg) \<longrightarrow>
            is_in_range (start rg) rg True \<and> is_in_range (end_pos rg) rg True
            \<and> \<not> is_in_range (end_pos rg) rg False)"
proof -
  have anti: "Position_le p q \<and> Position_le q p \<longrightarrow> p = q"
    by (cases p, cases q) (auto simp: Position_le_iff)
  have strict: "Position_lt p q \<longleftrightarrow> Position_le p q \<and> p \<noteq> q"
    by (cases p, cases q) (auto simp: Position_le_iff Position_lt_iff)
  have trans: "Position_le p q \<and> Position_le q r \<longrightarrow> Position_le p r"
    by (auto simp: Position_le_iff)
  have total: "Position_le p q \<or> Position_le q p"
    by (auto simp: Position_le_iff)
  have conv: "(Position_gt p q \<longleftrightarrow> Position_lt q p) \<and> (Position_ge p q \<longleftrightarrow> Position_le q p)"
    by (auto simp: Position_le_iff Position_lt_iff Position_gt_iff Position_ge_iff)
  have ends: "Position_le (start rg) (end_pos rg) \<longrightarrow>
            is_in_range (start rg) rg True \<and> is_in_range (end_pos rg) rg True
            \<and> \<not> is_in_range (end_pos rg) rg False"
    by (auto simp: is_in_range_def Position_le_iff Position_lt_iff)
  have ops: "(Position_gt p q \<longleftrightarrow>
            line p > line q \<or> (line p = line q \<and> character p > character q))
       \<and> (Position_ge p q \<longleftrightarrow>
            line p > line q \<or> (line p = line q \<and> character p \<ge> character q))"
    by (auto simp: Position_gt_iff Position_ge_iff)
  show ?thesis
    using anti strict trans total conv ends ops
    by (simp add: Position_lt_iff Position_le_iff is_in_range_def)
qed

theorem Position_order_lexicographic_witness:
  "Position_lt \<lparr>line = 1, character = 9\<rparr> \<lparr>line = 2, character = 0\<rparr>
   \<and> Position_le \<lparr>line = 2, character = 0\<rparr> \<lparr>line = 2, character = 4\<rparr>
   \<and> Position_le \<lparr>line = 1, character = 9\<rparr> \<lparr>line = 2, character = 4\<rparr>
   \<and> is_in_range \<lparr>line = 2, character = 4\<rparr>
        \<lparr>start = \<lparr>line = 1, character = 9\<rparr>, end_pos = \<lparr>line = 2, character = 4\<rparr>\<rparr> True
   \<and> \<not> is_in_range \<lparr>line = 2, character = 4\<rparr>
        \<lparr>start = \<lparr>line = 1, character = 9\<rparr>, end_pos = \<lparr>line = 2, character = 4\<rparr>\<rparr> False"
  using Position_order_lexicographic
    [of "\<lparr>line = 1, character = 9\<rparr>" "\<lparr>line = 2, character = 0\<rparr>" "\<lparr>line = 2, character = 4\<rparr>"
        "\<lparr>start = \<lparr>line = 1, character = 9\<rparr>, end_pos = \<lparr>line = 2, character = 4\<rparr>\<rparr>"]
  by (simp add: Position_le_iff Position_lt_iff is_in_range_def)

section \<open>The run-keyword state machine returns, and returns a suffix\<close>

lemma should_ignore_lines_no_oof: "should_ignore_lines ls is \<noteq> OutOfFuel"
  by (induction "is") (auto split: sum.splits)

lemma should_ignore_no_oof: "should_ignore d r \<noteq> OutOfFuel"
  by (auto simp: should_ignore_def should_ignore_lines_no_oof split: option.splits)

lemma append_diagnostics_no_oof: "fst (append_diagnostics ev d st) \<noteq> OutOfFuel"
  using should_ignore_no_oof[of "document ev" "range d"]
  by (auto simp: append_diagnostics_def split: outcome.splits bool.splits)

lemma then_do_oof_iff:
  "fst (then_do r f) = OutOfFuel \<longleftrightarrow>
     fst r = OutOfFuel \<or> (\<exists>x. fst r = Return x \<and> fst (f x (snd r)) = OutOfFuel)"
  by (auto simp: then_do_def split: outcome.splits)

lemma then_do_Return_iff:
  "fst (then_do r f) = Return y \<longleftrightarrow> (\<exists>x. fst r = Return x \<and> fst (f x (snd r)) = Return y)"
  by (auto simp: then_do_def split: outcome.splits)

lemma run_all_no_oof:
  "(\<And>m s. m \<in> set ms \<Longrightarrow> fst (m s) \<noteq> OutOfFuel) \<Longrightarrow> fst (run_all ms st) \<noteq> OutOfFuel"
  by (induction ms arbitrary: st) (auto simp: then_do_oof_iff)

lemma when_do_no_oof:
  "(\<And>s. fst (m s) \<noteq> OutOfFuel) \<Longrightarrow> fst (when_do b m st) \<noteq> OutOfFuel"
  by (auto simp: when_do_def)

lemma validate_arguments_no_oof: "fst (validate_arguments ev doc kt args st) \<noteq> OutOfFuel"
  by (auto simp: validate_arguments_def append_diagnostics_no_oof split: option.splits)

lemma report_steps_no_oof:
  "fst (run_all (report_steps ev found nd kt args) st) \<noteq> OutOfFuel"
  by (rule run_all_no_oof)
     (auto split: option.splits
           simp: report_steps_def append_diagnostics_no_oof when_do_no_oof
                 validate_arguments_no_oof)

lemma analyze_try_body_no_oof:
  "fst (analyze_try_body ev kw nd tok args st) \<noteq> OutOfFuel"
  unfolding analyze_try_body_def
  by (auto split: option.splits sum.splits simp: Let_def then_do_oof_iff report_steps_no_oof)

lemma analyze_keyword_call_with_no_oof:
  assumes "\<And>d s. fst (run d nd args s) \<noteq> OutOfFuel"
  shows "fst (analyze_keyword_call_with ev run kw nd tok args b st) \<noteq> OutOfFuel"
proof -
  obtain flow result st1 where tb: "analyze_try_body ev kw nd tok args st = (flow, result, st1)"
    by (cases "analyze_try_body ev kw nd tok args st") auto
  have "flow \<noteq> OutOfFuel" using analyze_try_body_no_oof[of ev kw nd tok args st] tb by simp
  then show ?thesis
    unfolding analyze_keyword_call_with_def tb
    using assms
    by (auto split: outcome.splits bool.splits
             simp: then_do_oof_iff append_diagnostics_no_oof)
qed

lemma analyze_keyword_call_with_False_no_oof:
  "fst (analyze_keyword_call_with ev run kw nd tok args False st) \<noteq> OutOfFuel"
proof -
  obtain flow result st1 where tb: "analyze_try_body ev kw nd tok args st = (flow, result, st1)"
    by (cases "analyze_try_body ev kw nd tok args st") auto
  have "flow \<noteq> OutOfFuel" using analyze_try_body_no_oof[of ev kw nd tok args st] tb by simp
  then show ?thesis
    unfolding analyze_keyword_call_with_def tb
    by (auto split: outcome.splits bool.splits
             simp: then_do_oof_iff append_diagnostics_no_oof)
qed

lemma analyze_keyword_call_with_cong:
  assumes "\<And>d s. run1 d nd args s = run2 d nd args s"
  shows "analyze_keyword_call_with ev run1 kw nd tok args b st
       = analyze_keyword_call_with ev run2 kw nd tok args b st"
  unfolding analyze_keyword_call_with_def using assms
  by (simp split: prod.splits outcome.splits bool.splits cong: if_cong)

lemma analyze_keyword_call_with_False_cong:
  "analyze_keyword_call_with ev run1 kw nd tok args False st
       = analyze_keyword_call_with ev run2 kw nd tok args False st"
  unfolding analyze_keyword_call_with_def
  by (simp split: prod.splits outcome.splits bool.splits cong: if_cong)

lemma skip_args_eq:
  "skip_args ts = (takeWhile (\<lambda>t. value t \<notin> set [''ELSE'', ''ELSE IF'']) ts,
                   dropWhile (\<lambda>t. value t \<notin> set [''ELSE'', ''ELSE IF'']) ts)"
  by (induction ts) auto

lemma suffix_skip_args: "suffix (snd (skip_args ts)) ts"
  by (simp add: skip_args_eq suffix_dropWhile)

lemma fine_Return: "suffix R A \<Longrightarrow> fine (Return R, s) A"
  by (simp add: fine_def)

lemma fine_Raise: "fine (Raise e, s) A"
  by (simp add: fine_def)

lemma fine_then_do:
  assumes "fst r \<noteq> OutOfFuel" and "\<And>x s. fst r = Return x \<Longrightarrow> fine (f x s) A"
  shows "fine (then_do r f) A"
  using assms by (cases "fst r") (auto simp: then_do_def fine_def)

lemma fine_then_do_fine:
  assumes "fine r B" and "\<And>R s. suffix R B \<Longrightarrow> fine (f R s) A"
  shows "fine (then_do r f) A"
  using assms by (cases "fst r") (auto simp: then_do_def fine_def)

lemma fine_suffix: "fine r B \<Longrightarrow> suffix B A \<Longrightarrow> fine r A"
  by (auto simp: fine_def split: outcome.splits intro: suffix_order.trans)

lemma run_keywords_loop_fine:
  assumes "\<And>d a s. length a < length A \<Longrightarrow> fst (run d nd a s) \<noteq> OutOfFuel"
  shows "fine (run_keywords_loop ev run nd h A st) []"
  using assms
proof (induction ev run nd h A st rule: run_keywords_loop.induct)
  case (1 ev run nd has_and st)
  show ?case by (simp add: fine_def)
next
  case (2 ev run nd has_and t argument_tokens st)
  have run': "fst (run d nd a s) \<noteq> OutOfFuel" if "length a \<le> length argument_tokens" for d a s
    using "2.prems"[of a d s] that by simp
  have akc: "fst (analyze_keyword_call_with ev run kw nd tok a b s) \<noteq> OutOfFuel"
    if "length a \<le> length argument_tokens" for kw tok a b s
    by (rule analyze_keyword_call_with_no_oof) (rule run'[OF that])
  show ?case
  proof (cases "value t = ''AND''")
    case True
    then show ?thesis
      using "2.IH"(1) "2.prems"
      by (auto intro!: fine_then_do fine_Return simp: append_diagnostics_no_oof)
  next
    case notand: False
    show ?thesis
    proof (cases "is_not_variable_token ev t")
      case False
      then show ?thesis using notand "2.IH"(2) "2.prems" by auto
    next
      case True
      show ?thesis
      proof (cases "List.find (\<lambda>e. value e = ''AND'') argument_tokens")
        case None
        then show ?thesis
          using notand True "2.IH"(3,4) "2.prems"
          by (auto intro!: fine_then_do akc fine_Return)
      next
        case (Some and_token)
        then show ?thesis
          using notand True "2.IH"(5) "2.prems"
          by (auto intro!: fine_then_do akc fine_Return)
      qed
    qed
  qed
qed

lemma then_do_cong:
  assumes "r1 = r2" and "\<And>x. fst r2 = Return x \<Longrightarrow> f1 x (snd r2) = f2 x (snd r2)"
  shows "then_do r1 f1 = then_do r2 f2"
  using assms by (auto simp: then_do_def split: outcome.splits)

lemma run_keywords_loop_cong:
  assumes "\<And>d a s. length a < length A \<Longrightarrow> run1 d nd a s = run2 d nd a s"
  shows "run_keywords_loop ev run1 nd h A st = run_keywords_loop ev run2 nd h A st"
  using assms
proof (induction ev run1 nd h A st rule: run_keywords_loop.induct)
  case (1 ev run nd has_and st)
  show ?case by simp
next
  case (2 ev run1 nd has_and t argument_tokens st)
  have akc: "analyze_keyword_call_with ev run1 kw nd tok a b s
           = analyze_keyword_call_with ev run2 kw nd tok a b s"
    if "length a \<le> length argument_tokens" for kw tok a b s
    by (rule analyze_keyword_call_with_cong) (use "2.prems" that in simp)
  show ?case
  proof (cases "value t = ''AND''")
    case True
    then show ?thesis
      using "2.IH"(1) "2.prems" by (auto intro!: then_do_cong)
  next
    case notand: False
    show ?thesis
    proof (cases "is_not_variable_token ev t")
      case False
      then show ?thesis using notand "2.IH"(2) "2.prems" by auto
    next
      case True
      show ?thesis
      proof (cases "List.find (\<lambda>e. value e = ''AND'') argument_tokens")
        case None
        then show ?thesis
          using notand True "2.IH"(3,4) "2.prems"
          by (auto intro!: then_do_cong akc)
      next
        case (Some and_token)
        then show ?thesis
          using notand True "2.IH"(5) "2.prems"
          by (auto intro!: then_do_cong akc)
      qed
    qed
  qed
qed

lemma fine_no_oof: "fine r A \<Longrightarrow> fst r \<noteq> OutOfFuel"
  by (auto simp: fine_def)

lemma fine_ReturnD: "fine r A \<Longrightarrow> fst r = Return R \<Longrightarrow> suffix R A"
  by (auto simp: fine_def)

lemma suffix_length_drop: "suffix R (drop k A) \<Longrightarrow> length R \<le> length A - k"
  using suffix_length_le by fastforce

lemma body_none:
  "analyse_run_keyword_body ev run loop None nd A st = (Return A, st)"
  by (simp add: analyse_run_keyword_body_def)

lemma body_not_run_keyword:
  "\<not> is_any_run_keyword doc \<Longrightarrow>
   analyse_run_keyword_body ev run loop (Some doc) nd A st = (Return A, st)"
  by (simp add: analyse_run_keyword_body_def)

lemma body_run_keyword:
  assumes "is_any_run_keyword doc" "takes_run_keyword ev doc A"
  shows "analyse_run_keyword_body ev run loop (Some doc) nd A st =
          then_do
            (analyze_keyword_call_with ev run (Some (unescape ev (value (A ! 0)))) nd
               (Some (A ! 0)) (drop 1 A) True st)
            (\<lambda>d s. (Return (drop 1 A), s))"
  using assms by (simp add: analyse_run_keyword_body_def takes_run_keyword_def)

lemma body_with_condition:
  assumes "is_any_run_keyword doc" "\<not> takes_run_keyword ev doc A"
    "takes_with_condition ev doc A"
  shows "analyse_run_keyword_body ev run loop (Some doc) nd A st =
          then_do
            (analyze_keyword_call_with ev run
               (Some (unescape ev (value (A ! run_keyword_condition_count doc)))) nd
               (Some (A ! run_keyword_condition_count doc))
               (drop (run_keyword_condition_count doc + 1) A) True st)
            (\<lambda>d s. (Return (drop (run_keyword_condition_count doc + 1) A), s))"
  using assms
  by (auto simp add: analyse_run_keyword_body_def takes_run_keyword_def
        takes_with_condition_def Let_def)

lemma body_run_keywords:
  assumes "is_any_run_keyword doc" "\<not> takes_run_keyword ev doc A"
    "\<not> takes_with_condition ev doc A" "is_run_keywords doc"
  shows "analyse_run_keyword_body ev run loop (Some doc) nd A st =
          run_keywords_loop ev run nd False A st"
  using assms
  by (auto simp add: analyse_run_keyword_body_def takes_run_keyword_def
        takes_with_condition_def)

lemma body_run_keyword_if:
  assumes "is_any_run_keyword doc" "\<not> takes_run_keyword ev doc A"
    "\<not> takes_with_condition ev doc A" "\<not> is_run_keywords doc"
    "is_run_keyword_if doc" "length A > 1"
  shows "analyse_run_keyword_body ev run loop (Some doc) nd A st =
          (case find_keyword ev (Some (value (A ! 1))) of
             Inl e \<Rightarrow> (Raise e, st)
           | Inr found \<Rightarrow>
               then_do (run_keyword_if_first ev run (fst found) nd A st)
                 (\<lambda>rest s. loop nd rest s))"
  using assms
  by (auto simp add: analyse_run_keyword_body_def takes_run_keyword_def
        takes_with_condition_def run_keyword_if_first_def split: sum.splits)

lemma body_other:
  assumes "is_any_run_keyword doc" "\<not> takes_run_keyword ev doc A"
    "\<not> takes_with_condition ev doc A" "\<not> is_run_keywords doc"
    "\<not> (is_run_keyword_if doc \<and> length A > 1)"
  shows "analyse_run_keyword_body ev run loop (Some doc) nd A st = (Return A, st)"
  using assms
  by (auto simp add: analyse_run_keyword_body_def takes_run_keyword_def
        takes_with_condition_def)

lemma body_cases [case_names none plain run_keyword with_condition run_keywords run_keyword_if other]:
  assumes "kd = None \<Longrightarrow> P"
    and "\<And>doc. kd = Some doc \<Longrightarrow> \<not> is_any_run_keyword doc \<Longrightarrow> P"
    and "\<And>doc. kd = Some doc \<Longrightarrow> is_any_run_keyword doc \<Longrightarrow> takes_run_keyword ev doc A \<Longrightarrow> P"
    and "\<And>doc. kd = Some doc \<Longrightarrow> is_any_run_keyword doc \<Longrightarrow> \<not> takes_run_keyword ev doc A
           \<Longrightarrow> takes_with_condition ev doc A \<Longrightarrow> P"
    and "\<And>doc. kd = Some doc \<Longrightarrow> is_any_run_keyword doc \<Longrightarrow> \<not> takes_run_keyword ev doc A
           \<Longrightarrow> \<not> takes_with_condition ev doc A \<Longrightarrow> is_run_keywords doc \<Longrightarrow> P"
    and "\<And>doc. kd = Some doc \<Longrightarrow> is_any_run_keyword doc \<Longrightarrow> \<not> takes_run_keyword ev doc A
           \<Longrightarrow> \<not> takes_with_condition ev doc A \<Longrightarrow> \<not> is_run_keywords doc
           \<Longrightarrow> is_run_keyword_if doc \<Longrightarrow> length A > 1 \<Longrightarrow> P"
    and "\<And>doc. kd = Some doc \<Longrightarrow> is_any_run_keyword doc \<Longrightarrow> \<not> takes_run_keyword ev doc A
           \<Longrightarrow> \<not> takes_with_condition ev doc A \<Longrightarrow> \<not> is_run_keywords doc
           \<Longrightarrow> \<not> (is_run_keyword_if doc \<and> length A > 1) \<Longrightarrow> P"
  shows P
  using assms by (cases kd) blast+

lemma run_keyword_if_first_fine:
  assumes R: "\<And>d s. fine (run d nd (drop 2 A) s) (drop 2 A)"
  shows "fine (run_keyword_if_first ev run found nd A st) (drop 2 A)"
  unfolding run_keyword_if_first_def
  using R
  by (auto simp: Let_def
           intro!: fine_then_do analyze_keyword_call_with_False_no_oof fine_Return
                   suffix_skip_args)

lemma run_keyword_if_first_cong:
  assumes "\<And>d s. run1 d nd (drop 2 A) s = run2 d nd (drop 2 A) s"
  shows "run_keyword_if_first ev run1 found nd A st = run_keyword_if_first ev run2 found nd A st"
  unfolding run_keyword_if_first_def
  using assms analyze_keyword_call_with_False_cong[of ev run1 _ nd _ _ st run2]
  by (simp add: Let_def)

lemma analyse_run_keyword_body_fine:
  assumes R: "\<And>d a s. length a < length A \<Longrightarrow> fine (run d nd a s) a"
      and L: "\<And>a s. length a < length A \<Longrightarrow> fine (loop nd a s) a"
  shows "fine (analyse_run_keyword_body ev run loop kd nd A st) A"
proof -
  have akc: "fst (analyze_keyword_call_with ev run kw nd tok a b s) \<noteq> OutOfFuel"
    if "length a < length A" for kw tok a b s
    by (rule analyze_keyword_call_with_no_oof) (rule fine_no_oof[OF R[OF that]])
  show ?thesis
  proof (cases rule: body_cases[where kd = kd and ev = ev and A = A, case_names none plain run_keyword with_condition run_keywords run_keyword_if other])
    case none
    then show ?thesis by (simp add: body_none fine_Return)
  next
    case (plain doc)
    then show ?thesis by (simp add: body_not_run_keyword fine_Return)
  next
    case (run_keyword doc)
    then have "length (drop 1 A) < length A" by (simp add: takes_run_keyword_def)
    then show ?thesis
      unfolding run_keyword(1) body_run_keyword[OF run_keyword(2,3)]
      by (intro fine_then_do akc fine_Return suffix_drop)
  next
    case (with_condition doc)
    then have "length (drop (run_keyword_condition_count doc + 1) A) < length A"
      by (auto simp add: takes_with_condition_def)
    then show ?thesis
      unfolding with_condition(1) body_with_condition[OF with_condition(2,3,4)]
      by (intro fine_then_do akc fine_Return suffix_drop)
  next
    case (run_keywords doc)
    show ?thesis
      unfolding run_keywords(1) body_run_keywords[OF run_keywords(2-5)]
    proof (rule fine_suffix[OF run_keywords_loop_fine])
      show "fst (run d nd a s) \<noteq> OutOfFuel" if "length a < length A" for d a s
        using R[OF that] by (rule fine_no_oof)
    qed simp
  next
    case (run_keyword_if doc)
    have len: "length (drop 2 A) < length A" using run_keyword_if by simp
    show ?thesis
      unfolding run_keyword_if(1) body_run_keyword_if[OF run_keyword_if(2-7)]
    proof (cases "find_keyword ev (Some (value (A ! 1)))")
      case (Inl e)
      then show "fine (case find_keyword ev (Some (value (A ! 1))) of
             Inl e \<Rightarrow> (Raise e, st)
           | Inr found \<Rightarrow>
               then_do (run_keyword_if_first ev run (fst found) nd A st)
                 (\<lambda>rest s. loop nd rest s)) A"
        by (simp add: fine_Raise)
    next
      case (Inr found)
      show "fine (case find_keyword ev (Some (value (A ! 1))) of
             Inl e \<Rightarrow> (Raise e, st)
           | Inr found \<Rightarrow>
               then_do (run_keyword_if_first ev run (fst found) nd A st)
                 (\<lambda>rest s. loop nd rest s)) A"
        unfolding Inr sum.case
      proof (rule fine_then_do_fine[OF run_keyword_if_first_fine])
        show "fine (run d nd (drop 2 A) s) (drop 2 A)" for d s by (rule R[OF len])
      next
        fix R' s
        assume suf: "suffix R' (drop 2 A)"
        then have "length R' < length A"
          using suffix_length_drop[OF suf] run_keyword_if(7) by simp
        from L[OF this] show "fine (loop nd R' s) A"
          by (rule fine_suffix) (meson suffix_drop suffix_order.trans suf)
      qed
    qed
  next
    case (other doc)
    then show ?thesis by (simp add: body_other fine_Return)
  qed
qed

lemma else_loop_body_fine:
  assumes R: "\<And>d a s. length a < length A \<Longrightarrow> fine (run d nd a s) a"
      and L: "\<And>a s. length a < length A \<Longrightarrow> fine (loop nd a s) a"
  shows "fine (else_loop_body ev run loop nd A st) A"
proof -
  have skip: "suffix (snd (skip_args R')) A" if "suffix R' (drop k A)" for R' k
    by (meson suffix_drop suffix_order.trans suffix_skip_args that)
  have loop: "fine (loop nd (snd (skip_args R')) s) A"
    if "suffix R' (drop 3 A)" "length A > 2" for R' s
  proof -
    have "length (snd (skip_args R')) \<le> length R'"
      using suffix_length_le suffix_skip_args by blast
    then have "length (snd (skip_args R')) < length A"
      using suffix_length_drop[OF that(1)] that(2) by simp
    from L[OF this] show ?thesis
      by (rule fine_suffix) (rule skip[OF that(1)])
  qed
  consider (empty) "A = []"
    | (else) "A \<noteq> []" "value (A ! 0) = ''ELSE'' \<and> length A > 1"
    | (elif) "A \<noteq> []" "\<not> (value (A ! 0) = ''ELSE'' \<and> length A > 1)"
             "value (A ! 0) = ''ELSE IF'' \<and> length A > 2"
    | (other) "A \<noteq> []" "\<not> (value (A ! 0) = ''ELSE'' \<and> length A > 1)"
             "\<not> (value (A ! 0) = ''ELSE IF'' \<and> length A > 2)"
    by blast
  then show ?thesis
  proof cases
    case empty
    then show ?thesis by (simp add: else_loop_body_def fine_def)
  next
    case else
    have len: "length (drop 2 A) < length A" using else by simp
    have eq: "else_loop_body ev run loop nd A st =
        then_do
          (analyze_keyword_call_with ev run
             (Some (unescape ev (value (A ! 1)))) nd (Some (A ! 1)) (drop 2 A) False st)
          (\<lambda>result s.
             then_do
               (if result \<noteq> None \<and> is_any_run_keyword (the result) then
                  run result nd (drop 2 A) s
                else (Return (drop 2 A), s))
               (\<lambda>rest s'. (Return (snd (skip_args rest)), s')))"
      using else by (simp add: else_loop_body_def)
    show ?thesis
      unfolding eq
    proof (rule fine_then_do[OF analyze_keyword_call_with_False_no_oof],
           rule fine_then_do_fine[where B = "drop 2 A"])
      fix x s
      show "fine (if x \<noteq> None \<and> is_any_run_keyword (the x) then run x nd (drop 2 A) s
                  else (Return (drop 2 A), s)) (drop 2 A)"
        using R[OF len] by (simp add: fine_Return)
    next
      fix R' s
      assume "suffix R' (drop 2 A)"
      then show "fine (Return (snd (skip_args R')), s) A"
        by (intro fine_Return skip)
    qed
  next
    case elif
    have len: "length (drop 3 A) < length A" using elif by simp
    have eq: "else_loop_body ev run loop nd A st =
        then_do
          (analyze_keyword_call_with ev run
             (Some (unescape ev (value (A ! 2)))) nd (Some (A ! 2)) (drop 3 A) False st)
          (\<lambda>result s.
             then_do
               (if result \<noteq> None \<and> is_any_run_keyword (the result) then
                  run result nd (drop 3 A) s
                else (Return (drop 3 A), s))
               (\<lambda>rest s'. loop nd (snd (skip_args rest)) s'))"
      using elif by (simp add: else_loop_body_def)
    show ?thesis
      unfolding eq
    proof (rule fine_then_do[OF analyze_keyword_call_with_False_no_oof],
           rule fine_then_do_fine[where B = "drop 3 A"])
      fix x s
      show "fine (if x \<noteq> None \<and> is_any_run_keyword (the x) then run x nd (drop 3 A) s
                  else (Return (drop 3 A), s)) (drop 3 A)"
        using R[OF len] by (simp add: fine_Return)
    next
      fix R' s
      assume "suffix R' (drop 3 A)"
      then show "fine (loop nd (snd (skip_args R')) s) A"
        using elif by (intro loop) auto
    qed
  next
    case other
    then show ?thesis by (auto simp add: else_loop_body_def fine_def)
  qed
qed

lemma analyse_run_keyword_body_cong:
  assumes E: "\<And>d a s. length a < length A \<Longrightarrow> run1 d nd a s = run2 d nd a s"
      and L: "\<And>a s. length a < length A \<Longrightarrow> loop1 nd a s = loop2 nd a s"
      and R: "\<And>d a s. length a < length A \<Longrightarrow> fine (run2 d nd a s) a"
  shows "analyse_run_keyword_body ev run1 loop1 kd nd A st
       = analyse_run_keyword_body ev run2 loop2 kd nd A st"
proof -
  have akc: "analyze_keyword_call_with ev run1 kw nd tok a b s
           = analyze_keyword_call_with ev run2 kw nd tok a b s"
    if "length a < length A" for kw tok a b s
    by (rule analyze_keyword_call_with_cong) (rule E[OF that])
  show ?thesis
  proof (cases rule: body_cases[where kd = kd and ev = ev and A = A, case_names none plain run_keyword with_condition run_keywords run_keyword_if other])
    case none
    then show ?thesis by (simp add: body_none)
  next
    case (plain doc)
    then show ?thesis by (simp add: body_not_run_keyword)
  next
    case (run_keyword doc)
    then have "length (drop 1 A) < length A" by (simp add: takes_run_keyword_def)
    then show ?thesis
      unfolding run_keyword(1) body_run_keyword[OF run_keyword(2,3)]
      by (simp add: akc)
  next
    case (with_condition doc)
    then have "length (drop (run_keyword_condition_count doc + 1) A) < length A"
      by (auto simp add: takes_with_condition_def)
    then show ?thesis
      unfolding with_condition(1) body_with_condition[OF with_condition(2,3,4)]
      by (simp add: akc)
  next
    case (run_keywords doc)
    show ?thesis
      unfolding run_keywords(1) body_run_keywords[OF run_keywords(2-5)]
      by (rule run_keywords_loop_cong) (rule E)
  next
    case (run_keyword_if doc)
    have len: "length (drop 2 A) < length A" using run_keyword_if by simp
    have first: "run_keyword_if_first ev run1 found nd A st
               = run_keyword_if_first ev run2 found nd A st" for found
      by (rule run_keyword_if_first_cong) (rule E[OF len])
    have tail: "then_do (run_keyword_if_first ev run1 found nd A st) (\<lambda>rest s. loop1 nd rest s)
              = then_do (run_keyword_if_first ev run2 found nd A st) (\<lambda>rest s. loop2 nd rest s)"
      for found
    proof (rule then_do_cong[OF first])
      fix x
      assume "fst (run_keyword_if_first ev run2 found nd A st) = Return x"
      moreover have "fine (run_keyword_if_first ev run2 found nd A st) (drop 2 A)"
        by (rule run_keyword_if_first_fine) (rule R[OF len])
      ultimately have "suffix x (drop 2 A)" by (rule fine_ReturnD[rotated])
      then have "length x < length A"
        using suffix_length_drop run_keyword_if(7) by fastforce
      then show "loop1 nd x (snd (run_keyword_if_first ev run2 found nd A st))
               = loop2 nd x (snd (run_keyword_if_first ev run2 found nd A st))" by (rule L)
    qed
    show ?thesis
      unfolding run_keyword_if(1) body_run_keyword_if[OF run_keyword_if(2-7)]
      by (simp add: tail split: sum.splits)
  next
    case (other doc)
    then show ?thesis by (simp add: body_other)
  qed
qed


lemma else_loop_body_cong:
  assumes E: "\<And>d a s. length a < length A \<Longrightarrow> run1 d nd a s = run2 d nd a s"
      and L: "\<And>a s. length a < length A \<Longrightarrow> loop1 nd a s = loop2 nd a s"
      and R: "\<And>d a s. length a < length A \<Longrightarrow> fine (run2 d nd a s) a"
  shows "else_loop_body ev run1 loop1 nd A st = else_loop_body ev run2 loop2 nd A st"
proof -
  have akcF: "analyze_keyword_call_with ev run1 kw nd tok a False s
           = analyze_keyword_call_with ev run2 kw nd tok a False s" for kw tok a s
    by (rule analyze_keyword_call_with_False_cong)
  consider (empty) "A = []"
    | (else) "A \<noteq> []" "value (A ! 0) = ''ELSE'' \<and> length A > 1"
    | (elif) "A \<noteq> []" "\<not> (value (A ! 0) = ''ELSE'' \<and> length A > 1)"
             "value (A ! 0) = ''ELSE IF'' \<and> length A > 2"
    | (other) "A \<noteq> []" "\<not> (value (A ! 0) = ''ELSE'' \<and> length A > 1)"
             "\<not> (value (A ! 0) = ''ELSE IF'' \<and> length A > 2)"
    by blast
  then show ?thesis
  proof cases
    case empty
    then show ?thesis by (simp add: else_loop_body_def)
  next
    case else
    have len: "length (drop 2 A) < length A" using else by simp
    have eq: "else_loop_body ev run loop nd A st =
        then_do
          (analyze_keyword_call_with ev run
             (Some (unescape ev (value (A ! 1)))) nd (Some (A ! 1)) (drop 2 A) False st)
          (\<lambda>result s.
             then_do
               (if result \<noteq> None \<and> is_any_run_keyword (the result) then
                  run result nd (drop 2 A) s
                else (Return (drop 2 A), s))
               (\<lambda>rest s'. (Return (snd (skip_args rest)), s')))" for run loop
      using else by (simp add: else_loop_body_def)
    show ?thesis
      unfolding eq
      by (rule then_do_cong[OF akcF]) (simp add: E[OF len])
  next
    case elif
    have len: "length (drop 3 A) < length A" using elif by simp
    have eq: "else_loop_body ev run loop nd A st =
        then_do
          (analyze_keyword_call_with ev run
             (Some (unescape ev (value (A ! 2)))) nd (Some (A ! 2)) (drop 3 A) False st)
          (\<lambda>result s.
             then_do
               (if result \<noteq> None \<and> is_any_run_keyword (the result) then
                  run result nd (drop 3 A) s
                else (Return (drop 3 A), s))
               (\<lambda>rest s'. loop nd (snd (skip_args rest)) s'))" for run loop
      using elif by (simp add: else_loop_body_def)
    show ?thesis
      unfolding eq
    proof (rule then_do_cong[OF akcF], rule then_do_cong)
      fix x
      show "(if x \<noteq> None \<and> is_any_run_keyword (the x) then run1 x nd (drop 3 A) s
             else (Return (drop 3 A), s))
          = (if x \<noteq> None \<and> is_any_run_keyword (the x) then run2 x nd (drop 3 A) s
             else (Return (drop 3 A), s))" (is "_ = ?r2") for s
        by (simp add: E[OF len])
      fix s R'
      let ?r = "if x \<noteq> None \<and> is_any_run_keyword (the x) then run2 x nd (drop 3 A) s
             else (Return (drop 3 A), s)"
      assume "fst ?r = Return R'"
      moreover have "fine ?r (drop 3 A)" using R[OF len] by (simp add: fine_Return)
      ultimately have suf: "suffix R' (drop 3 A)" by (rule fine_ReturnD[rotated])
      have "length (snd (skip_args R')) \<le> length R'"
        using suffix_length_le suffix_skip_args by blast
      then have "length (snd (skip_args R')) < length A"
        using suffix_length_drop[OF suf] elif by auto
      then show "loop1 nd (snd (skip_args R')) (snd ?r) = loop2 nd (snd (skip_args R')) (snd ?r)"
        by (rule L)
    qed
  next
    case other
    then show ?thesis by (auto simp add: else_loop_body_def)
  qed
qed

lemma fuel_fine:
  "length A < n \<Longrightarrow>
     fine (analyse_run_keyword_fuel n ev kd nd A st) A \<and> fine (else_loop_fuel n ev nd A st) A"
proof (induction n arbitrary: A kd nd st)
  case 0
  then show ?case by simp
next
  case (Suc n)
  have R: "fine (analyse_run_keyword_fuel n ev d nd a s) a" if "length a < length A" for d a s
    using Suc.IH[of a d nd s] that Suc.prems by simp
  have L: "fine (else_loop_fuel n ev nd a s) a" if "length a < length A" for a s
    using Suc.IH[of a None nd s] that Suc.prems by simp
  have "fine (analyse_run_keyword_body ev (\<lambda>d m a s. analyse_run_keyword_fuel n ev d m a s)
       (\<lambda>m a s. else_loop_fuel n ev m a s) kd nd A st) A"
    by (rule analyse_run_keyword_body_fine) (rule R, assumption, rule L, assumption)
  moreover have "fine (else_loop_body ev (\<lambda>d m a s. analyse_run_keyword_fuel n ev d m a s)
       (\<lambda>m a s. else_loop_fuel n ev m a s) nd A st) A"
    by (rule else_loop_body_fine) (rule R, assumption, rule L, assumption)
  ultimately show ?case by simp
qed

lemma fuel_independent:
  "length A < n \<Longrightarrow> length A < m \<Longrightarrow>
     analyse_run_keyword_fuel n ev kd nd A st = analyse_run_keyword_fuel m ev kd nd A st
   \<and> else_loop_fuel n ev nd A st = else_loop_fuel m ev nd A st"
proof (induction n arbitrary: m A kd nd st)
  case 0
  then show ?case by simp
next
  case (Suc n)
  then obtain m' where m: "m = Suc m'" by (cases m) auto
  have E: "analyse_run_keyword_fuel n ev d nd a s = analyse_run_keyword_fuel m' ev d nd a s"
    if "length a < length A" for d a s
    using Suc.IH[of a m' d nd s] that Suc.prems m by simp
  have L: "else_loop_fuel n ev nd a s = else_loop_fuel m' ev nd a s"
    if "length a < length A" for a s
    using Suc.IH[of a m' None nd s] that Suc.prems m by simp
  have R: "fine (analyse_run_keyword_fuel m' ev d nd a s) a" if "length a < length A" for d a s
    using fuel_fine[of a m' ev d nd s] that Suc.prems m by simp
  have "analyse_run_keyword_body ev (\<lambda>d m a s. analyse_run_keyword_fuel n ev d m a s)
       (\<lambda>m a s. else_loop_fuel n ev m a s) kd nd A st
      = analyse_run_keyword_body ev (\<lambda>d m a s. analyse_run_keyword_fuel m' ev d m a s)
       (\<lambda>m a s. else_loop_fuel m' ev m a s) kd nd A st"
    by (rule analyse_run_keyword_body_cong)
       (rule E, assumption, rule L, assumption, rule R, assumption)
  moreover have "else_loop_body ev (\<lambda>d m a s. analyse_run_keyword_fuel n ev d m a s)
       (\<lambda>m a s. else_loop_fuel n ev m a s) nd A st
      = else_loop_body ev (\<lambda>d m a s. analyse_run_keyword_fuel m' ev d m a s)
       (\<lambda>m a s. else_loop_fuel m' ev m a s) nd A st"
    by (rule else_loop_body_cong)
       (rule E, assumption, rule L, assumption, rule R, assumption)
  ultimately show ?case unfolding m by simp
qed

lemma analyse_run_keyword_fuel_eq:
  "length A < n \<Longrightarrow>
     analyse_run_keyword_fuel n ev kd nd A st = analyse_run_keyword ev kd nd A st"
  unfolding analyse_run_keyword_def using fuel_independent[of A n "Suc (length A)"] by simp

lemma else_loop_fuel_eq:
  "length A < n \<Longrightarrow> else_loop_fuel n ev nd A st = else_loop ev nd A st"
  unfolding else_loop_def using fuel_independent[of A n "Suc (length A)"] by simp

lemma analyse_run_keyword_fine: "fine (analyse_run_keyword ev kd nd A st) A"
  unfolding analyse_run_keyword_def using fuel_fine[of A "Suc (length A)"] by simp

lemma else_loop_fine: "fine (else_loop ev nd A st) A"
  unfolding else_loop_def using fuel_fine[of A "Suc (length A)"] by simp

lemma analyse_run_keyword_unfold:
  "analyse_run_keyword ev kd nd A st =
     analyse_run_keyword_body ev (analyse_run_keyword ev) (else_loop ev) kd nd A st"
proof -
  have "analyse_run_keyword ev kd nd A st =
      analyse_run_keyword_body ev (\<lambda>d m a s. analyse_run_keyword_fuel (length A) ev d m a s)
       (\<lambda>m a s. else_loop_fuel (length A) ev m a s) kd nd A st"
    by (simp add: analyse_run_keyword_def)
  also have "\<dots> = analyse_run_keyword_body ev (analyse_run_keyword ev) (else_loop ev) kd nd A st"
    by (rule analyse_run_keyword_body_cong)
       (simp_all add: analyse_run_keyword_fuel_eq else_loop_fuel_eq analyse_run_keyword_fine)
  finally show ?thesis .
qed

lemma else_loop_unfold:
  "else_loop ev nd A st =
     else_loop_body ev (analyse_run_keyword ev) (else_loop ev) nd A st"
proof -
  have "else_loop ev nd A st =
      else_loop_body ev (\<lambda>d m a s. analyse_run_keyword_fuel (length A) ev d m a s)
       (\<lambda>m a s. else_loop_fuel (length A) ev m a s) nd A st"
    by (simp add: else_loop_def)
  also have "\<dots> = else_loop_body ev (analyse_run_keyword ev) (else_loop ev) nd A st"
    by (rule else_loop_body_cong)
       (simp_all add: analyse_run_keyword_fuel_eq else_loop_fuel_eq analyse_run_keyword_fine)
  finally show ?thesis .
qed

section \<open>The analysis only appends diagnostics\<close>

lemma frame_refl: "frame st st"
  by (simp add: frame_def)

lemma frame_trans: "frame a b \<Longrightarrow> frame b c \<Longrightarrow> frame a c"
  by (auto simp: frame_def)

lemma append_diagnostics_frame: "frame st (snd (append_diagnostics ev d st))"
  by (auto simp: append_diagnostics_def frame_def split: outcome.splits bool.splits)

lemma then_do_frame:
  assumes "frame st (snd r)" and "\<And>x. fst r = Return x \<Longrightarrow> frame (snd r) (snd (f x (snd r)))"
  shows "frame st (snd (then_do r f))"
  using assms by (cases "fst r") (auto simp: then_do_def intro: frame_trans)

lemma run_all_frame:
  "(\<And>m s. m \<in> set ms \<Longrightarrow> frame s (snd (m s))) \<Longrightarrow> frame st (snd (run_all ms st))"
  by (induction ms arbitrary: st) (auto intro!: then_do_frame simp: frame_refl)

lemma when_do_frame:
  "(\<And>s. frame s (snd (m s))) \<Longrightarrow> frame st (snd (when_do b m st))"
  by (auto simp: when_do_def frame_refl)

lemma validate_arguments_frame: "frame st (snd (validate_arguments ev doc kt args st))"
  by (auto simp: validate_arguments_def append_diagnostics_frame frame_refl split: option.splits)

lemma report_steps_frame:
  "frame st (snd (run_all (report_steps ev found nd kt args) st))"
  by (rule run_all_frame)
     (auto split: option.splits
           simp: report_steps_def append_diagnostics_frame when_do_frame
                 validate_arguments_frame)

lemma analyze_try_body_frame:
  "frame st (snd (snd (analyze_try_body ev kw nd tok args st)))"
  unfolding analyze_try_body_def
  by (auto split: option.splits sum.splits simp: Let_def frame_refl report_steps_frame)

lemma analyze_keyword_call_with_frame:
  assumes "\<And>d s. frame s (snd (run d nd args s))"
  shows "frame st (snd (analyze_keyword_call_with ev run kw nd tok args b st))"
proof -
  obtain flow result st1 where tb: "analyze_try_body ev kw nd tok args st = (flow, result, st1)"
    by (cases "analyze_try_body ev kw nd tok args st") auto
  have f1: "frame st st1" using analyze_try_body_frame[of st ev kw nd tok args] tb by simp
  have K: "frame st (snd (then_do r
          (\<lambda>u st2. if result \<noteq> None \<and> b
                    then then_do (run result nd args st2) (\<lambda>rest st3. (Return result, st3))
                    else (Return result, st2))))"
    if "frame st (snd r)" for r :: "unit outcome \<times> analyzer"
    using that assms
    by (intro then_do_frame) (auto simp: frame_refl intro!: then_do_frame)
  have A: "frame st (snd (append_diagnostics ev d st1))" for d
    using f1 append_diagnostics_frame by (rule frame_trans)
  show ?thesis
  proof (cases flow)
    case (Return x)
    then show ?thesis
      unfolding analyze_keyword_call_with_def tb
      using f1 K[of "(Return (), st1)"] by (cases x) auto
  next
    case (Raise e)
    then show ?thesis
      unfolding analyze_keyword_call_with_def tb
      using f1 K[of "(Raise e, st1)"] K[OF A] by auto
  next
    case OutOfFuel
    then show ?thesis
      unfolding analyze_keyword_call_with_def tb using f1 by simp
  qed
qed

lemma analyze_keyword_call_with_False_frame:
  "frame st (snd (analyze_keyword_call_with ev run kw nd tok args False st))"
proof -
  have "analyze_keyword_call_with ev run kw nd tok args False st
      = analyze_keyword_call_with ev (\<lambda>d m a s. (Return a, s)) kw nd tok args False st"
    by (rule analyze_keyword_call_with_False_cong)
  then show ?thesis
    by (simp add: analyze_keyword_call_with_frame frame_refl)
qed

lemma run_keywords_loop_frame:
  assumes "\<And>d a s. length a < length A \<Longrightarrow> frame s (snd (run d nd a s))"
  shows "frame st (snd (run_keywords_loop ev run nd h A st))"
  using assms
proof (induction ev run nd h A st rule: run_keywords_loop.induct)
  case (1 ev run nd has_and st)
  show ?case by (simp add: frame_refl)
next
  case (2 ev run nd has_and t argument_tokens st)
  have akc: "frame s (snd (analyze_keyword_call_with ev run kw nd tok a b s))"
    if "length a \<le> length argument_tokens" for kw tok a b s
    by (rule analyze_keyword_call_with_frame) (use "2.prems" that in simp)
  show ?case
  proof (cases "value t = ''AND''")
    case True
    then show ?thesis
      using "2.IH"(1) "2.prems"
      by (auto intro!: then_do_frame simp: append_diagnostics_frame)
  next
    case notand: False
    show ?thesis
    proof (cases "is_not_variable_token ev t")
      case False
      then show ?thesis using notand "2.IH"(2) "2.prems" by auto
    next
      case True
      show ?thesis
      proof (cases "List.find (\<lambda>e. value e = ''AND'') argument_tokens")
        case None
        then show ?thesis
          using notand True "2.IH"(3,4) "2.prems"
          by (auto intro!: then_do_frame akc simp: frame_refl)
      next
        case (Some and_token)
        then show ?thesis
          using notand True "2.IH"(5) "2.prems"
          by (auto intro!: then_do_frame akc)
      qed
    qed
  qed
qed


lemma run_keyword_if_first_frame:
  assumes R: "\<And>d a s. frame s (snd (run d nd a s))"
  shows "frame st (snd (run_keyword_if_first ev run found nd A st))"
  unfolding run_keyword_if_first_def
  using R
  by (auto simp: Let_def frame_refl
           intro!: then_do_frame analyze_keyword_call_with_False_frame)

lemma analyse_run_keyword_body_frame:
  assumes R: "\<And>d a s. frame s (snd (run d nd a s))"
      and L: "\<And>a s. frame s (snd (loop nd a s))"
  shows "frame st (snd (analyse_run_keyword_body ev run loop kd nd A st))"
proof (cases rule: body_cases[where kd = kd and ev = ev and A = A,
         case_names none plain run_keyword with_condition run_keywords run_keyword_if other])
  case none
  then show ?thesis by (simp add: body_none frame_refl)
next
  case (plain doc)
  then show ?thesis by (simp add: body_not_run_keyword frame_refl)
next
  case (run_keyword doc)
  show ?thesis
    unfolding run_keyword(1) body_run_keyword[OF run_keyword(2,3)]
    by (intro then_do_frame analyze_keyword_call_with_frame R) (simp add: frame_refl)
next
  case (with_condition doc)
  show ?thesis
    unfolding with_condition(1) body_with_condition[OF with_condition(2,3,4)]
    by (intro then_do_frame analyze_keyword_call_with_frame R) (simp add: frame_refl)
next
  case (run_keywords doc)
  show ?thesis
    unfolding run_keywords(1) body_run_keywords[OF run_keywords(2-5)]
    by (rule run_keywords_loop_frame) (rule R)
next
  case (run_keyword_if doc)
  show ?thesis
    unfolding run_keyword_if(1) body_run_keyword_if[OF run_keyword_if(2-7)]
    by (cases "find_keyword ev (Some (value (A ! 1)))")
       (auto simp: frame_refl intro!: then_do_frame run_keyword_if_first_frame R L)
next
  case (other doc)
  then show ?thesis by (simp add: body_other frame_refl)
qed

lemma else_loop_body_frame:
  assumes R: "\<And>d a s. frame s (snd (run d nd a s))"
      and L: "\<And>a s. frame s (snd (loop nd a s))"
  shows "frame st (snd (else_loop_body ev run loop nd A st))"
  unfolding else_loop_body_def
  by (auto simp: frame_refl
           intro!: then_do_frame analyze_keyword_call_with_False_frame R L)

lemma fuel_frame:
  "frame st (snd (analyse_run_keyword_fuel n ev kd nd A st))
   \<and> frame st (snd (else_loop_fuel n ev nd A st))"
proof (induction n arbitrary: A kd nd st)
  case 0
  then show ?case by (simp add: frame_refl)
next
  case (Suc n)
  have R: "frame s (snd (analyse_run_keyword_fuel n ev d m a s))" for d m a s
    using Suc.IH[of s d m a] by simp
  have L: "frame s (snd (else_loop_fuel n ev m a s))" for m a s
    using Suc.IH[of s None m a] by simp
  have "frame st (snd (analyse_run_keyword_body ev
       (\<lambda>d m a s. analyse_run_keyword_fuel n ev d m a s)
       (\<lambda>m a s. else_loop_fuel n ev m a s) kd nd A st))"
    by (rule analyse_run_keyword_body_frame) (rule R, rule L)
  moreover have "frame st (snd (else_loop_body ev
       (\<lambda>d m a s. analyse_run_keyword_fuel n ev d m a s)
       (\<lambda>m a s. else_loop_fuel n ev m a s) nd A st))"
    by (rule else_loop_body_frame) (rule R, rule L)
  ultimately show ?case by simp
qed

lemma analyse_run_keyword_frame: "frame st (snd (analyse_run_keyword ev kd nd A st))"
  unfolding analyse_run_keyword_def using fuel_frame by blast

lemma analyze_keyword_call_frame:
  "frame st (snd (analyze_keyword_call ev kw nd tok args b st))"
  unfolding analyze_keyword_call_def
  by (rule analyze_keyword_call_with_frame) (rule analyse_run_keyword_frame)

text \<open>
  Claim C5. For every keyword descriptor (every run-keyword family, and none) and every
  list \<open>A\<close> of argument tokens, \<^verbatim>\<open>_analyse_run_keyword\<close> does not run forever, and what it
  returns is a suffix of \<open>A\<close>: it consumes at most \<open>|A|\<close> tokens and returns no token that
  is not in \<open>A\<close>. (It may also raise what the finder or the suppression scanner raises.)
  A budget above \<open>|A|\<close> is never used up and gives the same result.
\<close>

theorem analyse_run_keyword_returns_suffix:
  "fst (analyse_run_keyword ev keyword_doc nd A st) \<noteq> OutOfFuel
   \<and> (\<forall>R. fst (analyse_run_keyword ev keyword_doc nd A st) = Return R
          \<longrightarrow> suffix R A \<and> length R \<le> length A \<and> set R \<subseteq> set A)
   \<and> (\<forall>n. length A < n \<longrightarrow>
          analyse_run_keyword_fuel n ev keyword_doc nd A st
          = analyse_run_keyword ev keyword_doc nd A st)"
proof -
  have f: "fine (analyse_run_keyword ev keyword_doc nd A st) A"
    by (rule analyse_run_keyword_fine)
  have "suffix R A \<and> length R \<le> length A \<and> set R \<subseteq> set A"
    if "fst (analyse_run_keyword ev keyword_doc nd A st) = Return R" for R
  proof -
    have "suffix R A" using f that by (rule fine_ReturnD)
    then show ?thesis by (auto simp: suffix_length_le dest: set_mono_suffix)
  qed
  then show ?thesis
    using fine_no_oof[OF f] analyse_run_keyword_fuel_eq by blast
qed

theorem analyse_run_keyword_returns_suffix_witness:
  "fst (analyse_run_keyword example_env (Some (builtin_doc ''Run Keyword If'' RunKeywordIf))
          (statement KeywordCall [])
          [arg_at ''${c}'' 20, arg_at ''Log'' 27, arg_at ''hi'' 34, arg_at ''ELSE IF'' 40,
           arg_at ''${d}'' 51, arg_at ''Run Keyword'' 60, arg_at ''Unknown'' 75,
           arg_at ''x'' 86, arg_at ''ELSE'' 91] in_test)
     = Return [arg_at ''ELSE'' 91]
   \<and> suffix [arg_at ''ELSE'' 91]
        [arg_at ''${c}'' 20, arg_at ''Log'' 27, arg_at ''hi'' 34, arg_at ''ELSE IF'' 40,
           arg_at ''${d}'' 51, arg_at ''Run Keyword'' 60, arg_at ''Unknown'' 75,
           arg_at ''x'' 86, arg_at ''ELSE'' 91]
   \<and> analyse_run_keyword_fuel 12 example_env
          (Some (builtin_doc ''Run Keyword If'' RunKeywordIf)) (statement KeywordCall [])
          [arg_at ''${c}'' 20, arg_at ''Log'' 27, arg_at ''hi'' 34, arg_at ''ELSE IF'' 40,
           arg_at ''${d}'' 51, arg_at ''Run Keyword'' 60, arg_at ''Unknown'' 75,
           arg_at ''x'' 86, arg_at ''ELSE'' 91] in_test
      = analyse_run_keyword example_env (Some (builtin_doc ''Run Keyword If'' RunKeywordIf))
          (statement KeywordCall [])
          [arg_at ''${c}'' 20, arg_at ''Log'' 27, arg_at ''hi'' 34, arg_at ''ELSE IF'' 40,
           arg_at ''${d}'' 51, arg_at ''Run Keyword'' 60, arg_at ''Unknown'' 75,
           arg_at ''x'' 86, arg_at ''ELSE'' 91] in_test"
proof -
  let ?A = "[arg_at ''${c}'' 20, arg_at ''Log'' 27, arg_at ''hi'' 34, arg_at ''ELSE IF'' 40,
           arg_at ''${d}'' 51, arg_at ''Run Keyword'' 60, arg_at ''Unknown'' 75,
           arg_at ''x'' 86, arg_at ''ELSE'' 91]"
  have ev: "fst (analyse_run_keyword example_env
          (Some (builtin_doc ''Run Keyword If'' RunKeywordIf)) (statement KeywordCall []) ?A in_test)
     = Return [arg_at ''ELSE'' 91]"
    by code_simp
  from analyse_run_keyword_returns_suffix[of example_env
      "Some (builtin_doc ''Run Keyword If'' RunKeywordIf)" "statement KeywordCall []" ?A in_test]
  show ?thesis using ev by simp
qed

section \<open>The Run Keyword branch\<close>

lemma run_keyword_family_only:
  assumes "is_run_keyword doc"
  shows "is_any_run_keyword doc" "\<not> takes_with_condition ev doc A" "\<not> is_run_keywords doc"
    "\<not> is_run_keyword_if doc"
  using assms
  by (auto simp: is_run_keyword_def is_any_run_keyword_def takes_with_condition_def
        is_run_keyword_with_condition_def is_run_keywords_def is_run_keyword_if_def)

text \<open>
  Claim C1, as amended. For a keyword of the Run Keyword family: if the first argument
  token \<open>A[0]\<close> is literal, \<open>A[0].value\<close> (unescaped) is analysed as a keyword call with
  the keyword token \<open>A[0]\<close> and the arguments \<open>A[1..]\<close>, and when that call returns the
  state machine returns \<open>A[1..]\<close>: it consumes the keyword-name token only (what the call
  raises, the state machine raises). If \<open>A\<close> is empty or \<open>A[0]\<close> bears a variable, nothing
  is consumed and \<open>A\<close> is returned unchanged.
\<close>

theorem run_keyword_consumes_keyword_token:
  assumes "is_run_keyword doc"
  shows "(A \<noteq> [] \<and> is_not_variable_token ev (A ! 0) \<longrightarrow>
            analyse_run_keyword ev (Some doc) nd A st =
              then_do
                (analyze_keyword_call ev (Some (unescape ev (value (A ! 0)))) nd (Some (A ! 0))
                   (drop 1 A) True st)
                (\<lambda>d s. (Return (drop 1 A), s)))
       \<and> (\<not> (A \<noteq> [] \<and> is_not_variable_token ev (A ! 0)) \<longrightarrow>
            analyse_run_keyword ev (Some doc) nd A st = (Return A, st))"
proof (cases "takes_run_keyword ev doc A")
  case True
  then have lit: "A \<noteq> [] \<and> is_not_variable_token ev (A ! 0)"
    by (simp add: takes_run_keyword_def)
  show ?thesis
    using lit
    by (simp add: analyse_run_keyword_unfold[of ev "Some doc"]
          body_run_keyword[OF run_keyword_family_only(1)[OF assms] True]
          analyze_keyword_call_def)
next
  case False
  then have nolit: "\<not> (A \<noteq> [] \<and> is_not_variable_token ev (A ! 0))"
    using assms by (simp add: takes_run_keyword_def)
  have "analyse_run_keyword ev (Some doc) nd A st = (Return A, st)"
    using run_keyword_family_only[OF assms]
    by (simp add: analyse_run_keyword_unfold[of ev "Some doc"] body_other[OF _ False])
  then show ?thesis using nolit by blast
qed

theorem run_keyword_consumes_keyword_token_witness:
  "is_run_keyword (builtin_doc ''Run Keyword'' RunKeyword)
   \<and> analyse_run_keyword example_env (Some (builtin_doc ''Run Keyword'' RunKeyword))
        (statement KeywordCall []) [arg_at ''Unknown'' 20, arg_at ''hi'' 31] in_test
     = (Return [arg_at ''hi'' 31],
        in_test\<lparr>results :=
          [finder_diagnostic (statement KeywordCall []) (Some (arg_at ''Unknown'' 20)) not_found]\<rparr>)
   \<and> analyse_run_keyword example_env (Some (builtin_doc ''Run Keyword'' RunKeyword))
        (statement KeywordCall []) [arg_at ''${kw}'' 20, arg_at ''hi'' 29] in_test
     = (Return [arg_at ''${kw}'' 20, arg_at ''hi'' 29], in_test)"
proof -
  have rk: "is_run_keyword (builtin_doc ''Run Keyword'' RunKeyword)" by code_simp
  have lit: "is_not_variable_token example_env (arg_at ''Unknown'' 20)" by code_simp
  have var: "\<not> is_not_variable_token example_env (arg_at ''${kw}'' 20)" by code_simp
  have call: "analyze_keyword_call example_env (Some (unescape example_env ''Unknown''))
        (statement KeywordCall []) (Some (arg_at ''Unknown'' 20)) [arg_at ''hi'' 31] True in_test
      = (Return None, in_test\<lparr>results :=
          [finder_diagnostic (statement KeywordCall []) (Some (arg_at ''Unknown'' 20)) not_found]\<rparr>)"
    by code_simp
  have v: "value (arg_at ''Unknown'' 20) = ''Unknown''" by code_simp
  show ?thesis
    using run_keyword_consumes_keyword_token[OF rk,
        where A = "[arg_at ''Unknown'' 20, arg_at ''hi'' 31]" and ev = example_env
          and nd = "statement KeywordCall []" and st = in_test]
      run_keyword_consumes_keyword_token[OF rk,
        where A = "[arg_at ''${kw}'' 20, arg_at ''hi'' 29]" and ev = example_env
          and nd = "statement KeywordCall []" and st = in_test]
      rk lit var call v
    by (simp add: then_do_def)
qed

text \<open>
  The claim as stated says that the whole stream is consumed. For \<^verbatim>\<open>Run Keyword  Log  hi\<close>
  the state machine returns the argument \<^verbatim>\<open>hi\<close>, not the empty list.
\<close>

theorem run_keyword_not_all_consumed:
  "fst (analyse_run_keyword example_env (Some (builtin_doc ''Run Keyword'' RunKeyword))
          (statement KeywordCall []) [arg_at ''Log'' 20, arg_at ''hi'' 27] in_test)
   = Return [arg_at ''hi'' 27]
   \<and> [arg_at ''hi'' 27] \<noteq> []"
  by code_simp

section \<open>The visitor\<close>

lemma frame_grows: "frame a b \<Longrightarrow> grows a b"
  by (simp add: frame_def grows_def)

lemma grows_refl: "grows a a"
  by (simp add: grows_def)

lemma grows_trans: "grows a b \<Longrightarrow> grows b c \<Longrightarrow> grows a c"
  by (auto simp: grows_def)

lemma then_do_grows:
  assumes "grows st (snd r)" and "\<And>x. fst r = Return x \<Longrightarrow> grows (snd r) (snd (f x (snd r)))"
  shows "grows st (snd (then_do r f))"
  using assms by (cases "fst r") (auto simp: then_do_def intro: grows_trans)

lemma visit_KeywordCall_frame: "frame st (snd (visit_KeywordCall ev nd st))"
  unfolding visit_KeywordCall_def Let_def
  by (auto intro!: then_do_frame append_diagnostics_frame analyze_keyword_call_frame
           simp: frame_refl)

lemma visit_Fixture_frame: "frame st (snd (visit_Fixture ev nd st))"
  unfolding visit_Fixture_def
  by (auto intro!: then_do_frame analyze_keyword_call_frame simp: frame_refl split: option.splits)

lemma visit_Template_frame: "frame st (snd (visit_Template ev nd st))"
  unfolding visit_Template_def
  by (auto intro!: then_do_frame analyze_keyword_call_frame simp: frame_refl split: option.splits)

lemma visit_TestCase_frame: "frame st (snd (visit_TestCase ev nd st))"
  unfolding visit_TestCase_def
  by (auto intro!: append_diagnostics_frame simp: frame_refl)

lemma visit_Keyword_frame: "frame st (snd (visit_Keyword ev nd st))"
  unfolding visit_Keyword_def
  by (auto intro!: append_diagnostics_frame simp: frame_refl)

lemma finally_reset_grows:
  "prefix (results st) (results (snd r)) \<Longrightarrow> grows st (snd (finally_reset r))"
  by (simp add: finally_reset_def grows_def)

lemma grows_prefix: "grows a b \<Longrightarrow> prefix (results a) (results b)"
  by (simp add: grows_def)

lemma visit_grows:
  "grows st (snd (visit ev n st))"
  and generic_visit_grows: "grows st (snd (generic_visit ev ns st))"
proof (induction ev n st and ev ns st rule: visit_generic_visit.induct)
  case (1 ev cls toks children rng st)
  let ?nd = "Node cls toks children rng"
  have block: "grows st (snd (then_do r
        (\<lambda>u s. finally_reset (generic_visit ev children
                   (s\<lparr>current_testcase_or_keyword_name := nm\<rparr>)))))"
    if r: "frame st (snd r)"
      and ih: "\<And>s. grows (s\<lparr>current_testcase_or_keyword_name := nm\<rparr>)
                   (snd (generic_visit ev children
                      (s\<lparr>current_testcase_or_keyword_name := nm\<rparr>)))"
    for r :: "unit outcome \<times> analyzer" and nm
  proof (rule then_do_grows[OF frame_grows[OF r]])
    fix x
    have "prefix (results (snd r))
            (results (snd (generic_visit ev children
               ((snd r)\<lparr>current_testcase_or_keyword_name := nm\<rparr>))))"
      using grows_prefix[OF ih[of "snd r"]] by simp
    then show "grows (snd r) (snd (finally_reset (generic_visit ev children
               ((snd r)\<lparr>current_testcase_or_keyword_name := nm\<rparr>))))"
      by (rule finally_reset_grows)
  qed
  show ?case
  proof (cases cls)
    case KeywordCall
    then show ?thesis
      using "1.IH"(1) by (auto intro!: then_do_grows[OF frame_grows[OF visit_KeywordCall_frame]])
  next
    case Fixture
    then show ?thesis
      using "1.IH"(2) by (auto intro!: then_do_grows[OF frame_grows[OF visit_Fixture_frame]])
  next
    case TestTemplate
    then show ?thesis
      using "1.IH"(3) by (auto intro!: then_do_grows[OF frame_grows[OF visit_Template_frame]])
  next
    case Template
    then show ?thesis
      using "1.IH"(4) by (auto intro!: then_do_grows[OF frame_grows[OF visit_Template_frame]])
  next
    case TestCase
    then show ?thesis
      using "1.IH"(5) by (auto intro!: block visit_TestCase_frame)
  next
    case Keyword
    then show ?thesis
      using "1.IH"(6) by (auto intro!: block visit_Keyword_frame)
  next
    case Arguments
    then show ?thesis using "1.IH"(7) by auto
  next
    case OtherNode
    then show ?thesis using "1.IH"(8) by auto
  qed
next
  case (2 ev st)
  show ?case by (simp add: grows_refl)
next
  case (3 ev n ns st)
  then show ?case by (auto intro!: then_do_grows)
qed


lemma append_diagnostics_appends:
  "should_ignore (document ev) (range d) = Return False \<Longrightarrow>
   append_diagnostics ev d st = (Return (), st\<lparr>results := results st @ [d]\<rparr>)"
  by (simp add: append_diagnostics_def)

lemma grows_mem: "grows a b \<Longrightarrow> d \<in> set (results a) \<Longrightarrow> d \<in> set (results b)"
  using set_mono_prefix by (fastforce simp: grows_def)

lemma grows_falsy:
  "grows a b \<Longrightarrow> falsy (current_testcase_or_keyword_name a)
   \<Longrightarrow> falsy (current_testcase_or_keyword_name b)"
  by (auto simp: grows_def falsy_def)

lemma then_do_ReturnD:
  "fst (then_do r f) = Return y \<Longrightarrow> \<exists>x. fst r = Return x \<and> fst (f x (snd r)) = Return y"
  by (simp add: then_do_Return_iff)

lemma then_do_Return_eq: "fst r = Return x \<Longrightarrow> then_do r f = f x (snd r)"
  by (simp add: then_do_def)

lemma visit_KeywordCall_hint:
  assumes ret: "fst (visit_KeywordCall ev nd st) = Return u"
    and cur: "falsy (current_testcase_or_keyword_name st)"
    and nosup: "should_ignore (document ev)
                  (range_from_node_or_token nd (get_token ASSIGN nd)) = Return False"
  shows "unreachable_hint nd \<in> set (results (snd (visit_KeywordCall ev nd st)))"
proof -
  define r1 where "r1 =
     (if get_values ASSIGN nd \<noteq> [] \<and> falsy (get_value KEYWORD nd) then
           append_diagnostics ev
             (mk_diagnostic (range_from_node_or_token nd (get_token ASSIGN nd))
                ''Keyword name cannot be empty.'' (Some ERROR) (Some ''KeywordError'')
                (Some DIAGNOSTICS_SOURCE_NAME) None None) st
         else
           then_do
             (analyze_keyword_call ev (get_value KEYWORD nd) nd (get_token KEYWORD nd)
                (get_tokens ARGUMENT nd) True st)
             (\<lambda>d s. (Return (), s)))"
  define hint where "hint = mk_diagnostic (range_from_node_or_token nd (get_token ASSIGN nd))
                  ''Code is unreachable.'' (Some HINT) None
                  (Some DIAGNOSTICS_SOURCE_NAME) (Some [Unnecessary]) None"
  have hint_eq: "hint = unreachable_hint nd"
    by (simp add: hint_def unreachable_hint_def mk_diagnostic_def DIAGNOSTICS_SOURCE_NAME_def)
  have rng: "range hint = range_from_node_or_token nd (get_token ASSIGN nd)"
    by (simp add: hint_def mk_diagnostic_def)
  have v: "visit_KeywordCall ev nd st =
      then_do r1 (\<lambda>u s. if falsy (current_testcase_or_keyword_name s)
                         then append_diagnostics ev hint s else (Return (), s))"
    unfolding visit_KeywordCall_def r1_def hint_def Let_def by (rule refl)
  have fr: "frame st (snd r1)"
    unfolding r1_def
    by (auto intro!: then_do_frame append_diagnostics_frame analyze_keyword_call_frame
             simp: frame_refl)
  then have cur1: "falsy (current_testcase_or_keyword_name (snd r1))"
    using cur by (simp add: frame_def)
  obtain x where x: "fst r1 = Return x"
    using ret unfolding v by (auto dest: then_do_ReturnD)
  have "visit_KeywordCall ev nd st = append_diagnostics ev hint (snd r1)"
    unfolding v using cur1 by (simp add: then_do_Return_eq[OF x])
  also have "\<dots> = (Return (), (snd r1)\<lparr>results := results (snd r1) @ [hint]\<rparr>)"
    by (rule append_diagnostics_appends) (simp add: rng nosup)
  finally show ?thesis by (simp add: hint_eq)
qed

lemma visit_reached_hint:
  assumes kc: "node_class kc = KeywordCall"
  shows "should_ignore (document ev)
           (range_from_node_or_token kc (get_token ASSIGN kc)) = Return False
         \<Longrightarrow> fst (visit ev n st) = Return u \<Longrightarrow> kc \<in> set (reached n)
         \<Longrightarrow> falsy (current_testcase_or_keyword_name st)
         \<Longrightarrow> unreachable_hint kc \<in> set (results (snd (visit ev n st)))"
    and generic_visit_reached_hint:
      "should_ignore (document ev)
           (range_from_node_or_token kc (get_token ASSIGN kc)) = Return False
         \<Longrightarrow> fst (generic_visit ev ns st) = Return u
         \<Longrightarrow> kc \<in> set (concat (map reached ns))
         \<Longrightarrow> falsy (current_testcase_or_keyword_name st)
         \<Longrightarrow> unreachable_hint kc \<in> set (results (snd (generic_visit ev ns st)))"
proof (induction ev n st and ev ns st rule: visit_generic_visit.induct)
  case (1 ev cls toks children rng st)
  let ?nd = "Node cls toks children rng"
  note nosup = "1.prems"(1) and ret = "1.prems"(2) and mem = "1.prems"(3)
    and cur = "1.prems"(4)
  have stmt: "unreachable_hint kc \<in> set (results (snd (then_do r
                 (\<lambda>u s. generic_visit ev children s))))"
    if r: "frame st (snd r)"
      and rr: "fst (then_do r (\<lambda>u s. generic_visit ev children s)) = Return u"
      and here: "kc = ?nd \<Longrightarrow> unreachable_hint kc \<in> set (results (snd r))"
      and ih: "\<And>s. fst (generic_visit ev children s) = Return u
                 \<Longrightarrow> kc \<in> set (concat (map reached children))
                 \<Longrightarrow> falsy (current_testcase_or_keyword_name s)
                 \<Longrightarrow> unreachable_hint kc \<in> set (results (snd (generic_visit ev children s)))"
      and notblock: "cls \<noteq> TestCase" "cls \<noteq> Keyword"
    for r :: "unit outcome \<times> analyzer"
  proof -
    obtain x where x: "fst r = Return x"
      and rest: "fst (generic_visit ev children (snd r)) = Return u"
      using rr by (auto dest: then_do_ReturnD)
    have eq: "then_do r (\<lambda>u s. generic_visit ev children s) = generic_visit ev children (snd r)"
      by (simp add: then_do_Return_eq[OF x])
    have cur': "falsy (current_testcase_or_keyword_name (snd r))"
      using r cur by (simp add: frame_def)
    from mem notblock have "kc = ?nd \<or> kc \<in> set (concat (map reached children))" by auto
    then show ?thesis
    proof
      assume "kc = ?nd"
      from here[OF this] show ?thesis
        unfolding eq by (rule grows_mem[OF generic_visit_grows])
    next
      assume "kc \<in> set (concat (map reached children))"
      from ih[OF rest this cur'] show ?thesis unfolding eq .
    qed
  qed
  show ?case
  proof (cases cls)
    case KeywordCall
    have v: "visit ev ?nd st =
        then_do (visit_KeywordCall ev ?nd st) (\<lambda>u s. generic_visit ev children s)"
      by (simp add: KeywordCall)
    show ?thesis unfolding v
    proof (rule stmt[OF visit_KeywordCall_frame ret[unfolded v]])
      assume here: "kc = ?nd"
      obtain x where x: "fst (visit_KeywordCall ev ?nd st) = Return x"
        using ret unfolding v by (auto dest: then_do_ReturnD)
      from visit_KeywordCall_hint[OF x cur nosup[unfolded here]]
      show "unreachable_hint kc \<in> set (results (snd (visit_KeywordCall ev ?nd st)))"
        unfolding here .
    qed (use "1.IH"(1)[OF KeywordCall nosup] KeywordCall in auto)
  next
    case Fixture
    have v: "visit ev ?nd st =
        then_do (visit_Fixture ev ?nd st) (\<lambda>u s. generic_visit ev children s)"
      by (simp add: Fixture)
    show ?thesis unfolding v
      by (rule stmt[OF visit_Fixture_frame ret[unfolded v]])
         (use "1.IH"(2)[OF Fixture nosup] Fixture kc in auto)
  next
    case TestTemplate
    have v: "visit ev ?nd st =
        then_do (visit_Template ev ?nd st) (\<lambda>u s. generic_visit ev children s)"
      by (simp add: TestTemplate)
    show ?thesis unfolding v
      by (rule stmt[OF visit_Template_frame ret[unfolded v]])
         (use "1.IH"(3)[OF TestTemplate nosup] TestTemplate kc in auto)
  next
    case Template
    have v: "visit ev ?nd st =
        then_do (visit_Template ev ?nd st) (\<lambda>u s. generic_visit ev children s)"
      by (simp add: Template)
    show ?thesis unfolding v
      by (rule stmt[OF visit_Template_frame ret[unfolded v]])
         (use "1.IH"(4)[OF Template nosup] Template kc in auto)
  next
    case TestCase
    then show ?thesis using mem kc by auto
  next
    case Keyword
    then show ?thesis using mem kc by auto
  next
    case Arguments
    then show ?thesis using "1.IH"(7)[OF Arguments nosup] ret mem cur kc by auto
  next
    case OtherNode
    then show ?thesis using "1.IH"(8)[OF OtherNode nosup] ret mem cur kc by auto
  qed
next
  case (2 ev st)
  then show ?case by simp
next
  case (3 ev n ns st)
  note nosup = "3.prems"(1) and ret = "3.prems"(2) and mem = "3.prems"(3)
    and cur = "3.prems"(4)
  have v: "generic_visit ev (n # ns) st = then_do (visit ev n st) (\<lambda>u s. generic_visit ev ns s)"
    by simp
  obtain x where x: "fst (visit ev n st) = Return x"
    and rest: "fst (generic_visit ev ns (snd (visit ev n st))) = Return u"
    using ret unfolding v by (auto dest: then_do_ReturnD)
  have xu: "fst (visit ev n st) = Return u" using x by simp
  have eq: "generic_visit ev (n # ns) st = generic_visit ev ns (snd (visit ev n st))"
    unfolding v by (simp add: then_do_Return_eq[OF x])
  from mem have "kc \<in> set (reached n) \<or> kc \<in> set (concat (map reached ns))" by auto
  then show ?case
  proof
    assume "kc \<in> set (reached n)"
    from "3.IH"(1)[OF nosup xu this cur] show ?thesis
      unfolding eq by (rule grows_mem[OF generic_visit_grows])
  next
    assume m: "kc \<in> set (concat (map reached ns))"
    have "falsy (current_testcase_or_keyword_name (snd (visit ev n st)))"
      by (rule grows_falsy[OF visit_grows cur])
    from "3.IH"(2)[OF nosup rest m this] show ?thesis unfolding eq by simp
  qed
qed

lemma finally_reset_simps:
  "fst (finally_reset r) = fst r" "results (snd (finally_reset r)) = results (snd r)"
  by (simp_all add: finally_reset_def)

text \<open>
  Claim C10. The analyzer stores the enclosing block's name and tests it for truth, so a
  block with an empty name (the empty string, or no name) counts as no block: when the
  visit of a test case or keyword block with an empty name returns, every keyword call
  inside the block, at any depth below it (in the body of a FOR or an IF, say) and in no
  block nested in it, has received the hint "Code is unreachable." tagged Unnecessary,
  and the block its empty-name error (on ranges that no pragma suppresses).
\<close>

theorem unreachable_hint_in_unnamed_block:
  assumes blk: "cls = TestCase \<and> name_type = TESTCASE_NAME
              \<or> cls = Keyword \<and> name_type = KEYWORD_NAME"
    and noname: "falsy (get_value name_type (Node cls toks children rng))"
    and kc: "kc \<in> set (inside (Node cls toks children rng))" "node_class kc = KeywordCall"
    and ret: "fst (visit ev (Node cls toks children rng) st) = Return ()"
    and nosup_block: "should_ignore (document ev)
        (range_from_node_or_token (Node cls toks children rng)
           (get_token name_type (Node cls toks children rng))) = Return False"
    and nosup_call: "should_ignore (document ev)
        (range_from_node_or_token kc (get_token ASSIGN kc)) = Return False"
  shows "unreachable_hint kc \<in> set (results (snd (visit ev (Node cls toks children rng) st)))
       \<and> empty_name_error
           (range_from_node_or_token (Node cls toks children rng)
              (get_token name_type (Node cls toks children rng)))
           (if cls = TestCase then ''Test case name cannot be empty.''
            else ''Keyword name cannot be empty.'')
         \<in> set (results (snd (visit ev (Node cls toks children rng) st)))"
proof -
  let ?nd = "Node cls toks children rng"
  let ?err = "empty_name_error (range_from_node_or_token ?nd (get_token name_type ?nd))
           (if cls = TestCase then ''Test case name cannot be empty.''
            else ''Keyword name cannot be empty.'')"
  define s1 where "s1 = st\<lparr>results := results st @ [?err]\<rparr>"
  define s2 where "s2 = s1\<lparr>current_testcase_or_keyword_name := get_value name_type ?nd\<rparr>"
  have rng: "range ?err = range_from_node_or_token ?nd (get_token name_type ?nd)"
    by (simp add: empty_name_error_def)
  have app: "append_diagnostics ev ?err st = (Return (), s1)"
    unfolding s1_def by (rule append_diagnostics_appends) (simp add: rng nosup_block)
  have head: "(if cls = TestCase then visit_TestCase ev ?nd st else visit_Keyword ev ?nd st)
            = (Return (), s1)"
    using blk noname app
    by (auto simp: visit_TestCase_def visit_Keyword_def mk_diagnostic_def empty_name_error_def
          DIAGNOSTICS_SOURCE_NAME_def)
  have v: "visit ev ?nd st = finally_reset (generic_visit ev children s2)"
    using blk head by (auto simp: then_do_def s2_def)
  have ret2: "fst (generic_visit ev children s2) = Return ()"
    using ret unfolding v by (simp add: finally_reset_simps)
  have cur: "falsy (current_testcase_or_keyword_name s2)"
    using noname by (simp add: s2_def)
  have mem: "kc \<in> set (concat (map reached children))"
    using kc(1) by (simp add: inside_def)
  have "unreachable_hint kc \<in> set (results (snd (generic_visit ev children s2)))"
    by (rule generic_visit_reached_hint[OF kc(2) nosup_call ret2 mem cur])
  moreover have "?err \<in> set (results s2)" by (simp add: s2_def s1_def)
  then have "?err \<in> set (results (snd (generic_visit ev children s2)))"
    by (rule grows_mem[OF generic_visit_grows])
  ultimately show ?thesis unfolding v by (simp add: finally_reset_simps)
qed

text \<open>
  A test case without a name, with one keyword call in its body and one in the body of a
  statement nested in it: both calls get the hint.
\<close>

theorem unreachable_hint_in_unnamed_block_witness:
  "falsy (get_value TESTCASE_NAME nested_example)
   \<and> statement KeywordCall [token_at KEYWORD ''Log'' 8, arg_at ''hi'' 15]
       \<in> set (inside nested_example)
   \<and> results (snd (visit example_env nested_example
        \<lparr>results = [], current_testcase_or_keyword_name = None\<rparr>))
     = [empty_name_error (range_from_token (token_at TESTCASE_NAME [] 0))
          ''Test case name cannot be empty.'',
        unreachable_hint (statement KeywordCall [token_at KEYWORD ''Log'' 4, arg_at ''hi'' 11]),
        unreachable_hint (statement KeywordCall [token_at KEYWORD ''Log'' 8, arg_at ''hi'' 15])]"
proof -
  let ?kc = "statement KeywordCall [token_at KEYWORD ''Log'' 8, arg_at ''hi'' 15]"
  let ?toks = "[token_at TESTCASE_NAME [] 0]"
  let ?children = "[statement KeywordCall [token_at KEYWORD ''Log'' 4, arg_at ''hi'' 11],
                    Node OtherNode [] [?kc] Range_zero]"
  let ?st = "\<lparr>results = [], current_testcase_or_keyword_name = None\<rparr>"
  have nd: "nested_example = Node TestCase ?toks ?children Range_zero"
    by (simp add: nested_example_def)
  have noname: "falsy (get_value TESTCASE_NAME (Node TestCase ?toks ?children Range_zero))"
    by code_simp
  have mem: "?kc \<in> set (inside (Node TestCase ?toks ?children Range_zero))" by code_simp
  have ret: "fst (visit example_env (Node TestCase ?toks ?children Range_zero) ?st) = Return ()"
    by code_simp
  have kc: "node_class ?kc = KeywordCall" by code_simp
  have doc: "document example_env = None" by code_simp
  have res: "results (snd (visit example_env (Node TestCase ?toks ?children Range_zero) ?st))
     = [empty_name_error (range_from_token (token_at TESTCASE_NAME [] 0))
          ''Test case name cannot be empty.'',
        unreachable_hint (statement KeywordCall [token_at KEYWORD ''Log'' 4, arg_at ''hi'' 11]),
        unreachable_hint ?kc]"
    by code_simp
  from unreachable_hint_in_unnamed_block[of TestCase TESTCASE_NAME ?toks ?children Range_zero
      ?kc example_env ?st]
  show ?thesis unfolding nd using noname mem ret kc res by (simp add: doc should_ignore_def)
qed

text \<open>
  Claim C8. For a keyword call whose assign list is not empty and whose keyword name is
  empty, \<^verbatim>\<open>visit_KeywordCall\<close> passes to \<^verbatim>\<open>append_diagnostics\<close> an Error at the first ASSIGN
  token with the message "Keyword name cannot be empty." and the code "KeywordError"
  (and then the unreachable-code hint, outside a named block); unless a pragma suppresses
  the range, the diagnostic is appended to the results. The keyword finder is not
  called: the outcome is the same whatever the finder is.
\<close>

lemma append_diagnostics_find_keyword_update:
  "append_diagnostics (ev\<lparr>find_keyword := f\<rparr>) d st = append_diagnostics ev d st"
  by (simp add: append_diagnostics_def)

lemma get_token_Some:
  "get_values ty nd \<noteq> [] \<Longrightarrow> \<exists>t. get_token ty nd = Some t \<and> tok_type t = ty \<and> t \<in> set (tokens nd)"
  by (cases "get_token ty nd")
     (auto simp: get_values_def get_tokens_def get_token_def find_None_iff filter_empty_conv
           dest: find_Some_iff[THEN iffD1] intro: nth_mem)

theorem empty_keyword_name_reported:
  assumes "get_values ASSIGN nd \<noteq> []" and "falsy (get_value KEYWORD nd)"
  shows "\<exists>t. get_token ASSIGN nd = Some t \<and> tok_type t = ASSIGN
     \<and> visit_KeywordCall ev nd st =
         then_do
           (append_diagnostics ev (empty_name_error (range_from_token t)
              ''Keyword name cannot be empty.'') st)
           (\<lambda>u s. if falsy (current_testcase_or_keyword_name s)
                    then append_diagnostics ev (unreachable_hint nd) s else (Return (), s))
     \<and> (should_ignore (document ev) (range_from_token t) = Return False \<longrightarrow>
          visit_KeywordCall ev nd st =
            (Return (),
             st\<lparr>results := results st
                  @ empty_name_error (range_from_token t) ''Keyword name cannot be empty.''
                  # (if falsy (current_testcase_or_keyword_name st) then [unreachable_hint nd]
                     else [])\<rparr>))
     \<and> (\<forall>f. visit_KeywordCall (ev\<lparr>find_keyword := f\<rparr>) nd st = visit_KeywordCall ev nd st)"
proof -
  obtain t where t: "get_token ASSIGN nd = Some t" "tok_type t = ASSIGN"
    using get_token_Some[OF assms(1)] by blast
  let ?err = "empty_name_error (range_from_token t) ''Keyword name cannot be empty.''"
  have e: "mk_diagnostic (range_from_node_or_token nd (get_token ASSIGN nd))
                ''Keyword name cannot be empty.'' (Some ERROR) (Some ''KeywordError'')
                (Some DIAGNOSTICS_SOURCE_NAME) None None = ?err"
    by (simp add: mk_diagnostic_def empty_name_error_def t range_from_node_or_token_def
          DIAGNOSTICS_SOURCE_NAME_def)
  have h: "mk_diagnostic (range_from_node_or_token nd (get_token ASSIGN nd))
                  ''Code is unreachable.'' (Some HINT) None
                  (Some DIAGNOSTICS_SOURCE_NAME) (Some [Unnecessary]) None = unreachable_hint nd"
    by (simp add: mk_diagnostic_def unreachable_hint_def DIAGNOSTICS_SOURCE_NAME_def)
  have v: "visit_KeywordCall ev' nd st =
         then_do (append_diagnostics ev' ?err st)
           (\<lambda>u s. if falsy (current_testcase_or_keyword_name s)
                    then append_diagnostics ev' (unreachable_hint nd) s else (Return (), s))"
    for ev'
    unfolding visit_KeywordCall_def Let_def e h using assms by simp
  have r: "range ?err = range_from_token t" "range (unreachable_hint nd) = range_from_token t"
    by (simp_all add: empty_name_error_def unreachable_hint_def t range_from_node_or_token_def)
  have ns: "visit_KeywordCall ev nd st =
            (Return (),
             st\<lparr>results := results st @ ?err
                  # (if falsy (current_testcase_or_keyword_name st) then [unreachable_hint nd]
                     else [])\<rparr>)"
    if "should_ignore (document ev) (range_from_token t) = Return False"
    unfolding v[of ev] using that
    by (simp add: append_diagnostics_appends r then_do_def)
  have indep: "visit_KeywordCall (ev\<lparr>find_keyword := f\<rparr>) nd st = visit_KeywordCall ev nd st" for f
    unfolding v by (simp add: append_diagnostics_find_keyword_update cong: if_cong)
  show ?thesis using t v[of ev] ns indep by blast
qed

theorem empty_keyword_name_reported_witness:
  "get_values ASSIGN (statement KeywordCall [token_at ASSIGN ''${x}='' 4]) \<noteq> []
   \<and> falsy (get_value KEYWORD (statement KeywordCall [token_at ASSIGN ''${x}='' 4]))
   \<and> visit_KeywordCall example_env (statement KeywordCall [token_at ASSIGN ''${x}='' 4]) in_test
     = (Return (),
        in_test\<lparr>results :=
          [empty_name_error (range_from_token (token_at ASSIGN ''${x}='' 4))
             ''Keyword name cannot be empty.'']\<rparr>)"
proof -
  let ?nd = "statement KeywordCall [token_at ASSIGN ''${x}='' 4]"
  have a: "get_values ASSIGN ?nd \<noteq> []" by code_simp
  have k: "falsy (get_value KEYWORD ?nd)" by code_simp
  have t: "get_token ASSIGN ?nd = Some (token_at ASSIGN ''${x}='' 4)" by code_simp
  have c: "\<not> falsy (current_testcase_or_keyword_name in_test)" "results in_test = []"
    by code_simp+
  have d: "document example_env = None" by code_simp
  from empty_keyword_name_reported[OF a k, of example_env in_test]
  show ?thesis using a k t c by (auto simp: d should_ignore_def)
qed

section \<open>Run Keywords and its AND separators\<close>

text \<open>
  Claim C2 (does not hold of the code). The claim: when \<^verbatim>\<open>AND\<close> separators occur in the
  arguments of Run Keywords, the leading literal token of each segment is analyzed as a
  keyword call whose arguments are the tokens up to the next \<^verbatim>\<open>AND\<close>, and only an \<^verbatim>\<open>AND\<close> at
  the head of a segment is an error.

  The loop of \<^verbatim>\<open>_analyse_run_keyword\<close> skips a variable token before it looks for the next
  \<^verbatim>\<open>AND\<close>, so the separator that ends a segment made of a variable is met at the head of
  the loop. On \<^verbatim>\<open>Run Keywords    ${kw}    AND    Log    hi\<close> the separator is reported as
  incorrect, \<^verbatim>\<open>has_and\<close> stays false, \<^verbatim>\<open>Log\<close> is analyzed with no arguments, and its
  argument \<^verbatim>\<open>hi\<close> is analyzed as a keyword of its own, which is not found: two Error
  diagnostics on a statement whose only segment with a literal keyword is \<^verbatim>\<open>Log    hi\<close>.
\<close>

theorem run_keywords_variable_before_AND:
  "visit_KeywordCall example_env
     (statement KeywordCall
        [token_at KEYWORD ''Run Keywords'' 4, arg_at ''${kw}'' 20, arg_at ''AND'' 29,
         arg_at ''Log'' 36, arg_at ''hi'' 43]) in_test
   = (Return (),
      in_test\<lparr>results :=
        [mk_diagnostic (range_from_token (arg_at ''AND'' 29)) ''Incorrect use of AND''
           (Some ERROR) None (Some ''robotcode'') None None,
         mk_diagnostic (range_from_token (arg_at ''hi'' 43)) ''No keyword found.''
           (Some ERROR) (Some ''KeywordError/not_found'') (Some ''robotcode'') None None]\<rparr>)"
  by code_simp

text \<open>
  Scenario S3 of the same claim does hold: on \<^verbatim>\<open>Run Keywords    Log    hi    AND    Unknown\<close>
  there is exactly one diagnostic, on \<^verbatim>\<open>Unknown\<close>.
\<close>

lemma run_keywords_S3:
  "visit_KeywordCall example_env
     (statement KeywordCall
        [token_at KEYWORD ''Run Keywords'' 4, arg_at ''Log'' 20, arg_at ''hi'' 27,
         arg_at ''AND'' 33, arg_at ''Unknown'' 40]) in_test
   = (Return (),
      in_test\<lparr>results :=
        [mk_diagnostic (range_from_token (arg_at ''Unknown'' 40)) ''No keyword found.''
           (Some ERROR) (Some ''KeywordError/not_found'') (Some ''robotcode'') None None]\<rparr>)"
  by code_simp

section \<open>Exceptions at the boundary of the keyword-call analysis\<close>

text \<open>
  Claim C3 (does not hold of the code). The claim: \<^verbatim>\<open>_analyze_keyword_call\<close> propagates no
  exception but cancellation and the fatal signals; any other one becomes one Error
  diagnostic whose code is the name of the exception's type.

  The \<^verbatim>\<open>try\<close> of \<^verbatim>\<open>_analyze_keyword_call\<close> ends before the nested call of
  \<^verbatim>\<open>_analyse_run_keyword\<close>, and the Run Keyword If branch of the latter looks its keyword
  up with the finder directly. With a finder that raises a \<^verbatim>\<open>ValueError\<close> on the name
  \<^verbatim>\<open>Boom\<close>, the call for \<^verbatim>\<open>Run Keyword If    ${c}    Boom\<close> raises that error (first
  conjunct), although a \<^verbatim>\<open>ValueError\<close> is not one of the re-raised exceptions (second),
  and although the same failure of the guarded lookup, for the statement \<^verbatim>\<open>Boom\<close>, is
  turned into the diagnostic (third). The handler itself reports through
  \<^verbatim>\<open>append_diagnostics\<close>, which indexes the document's lines: with a document of one line
  and the statement on line 2, the handler raises an \<^verbatim>\<open>IndexError\<close> (fourth).
\<close>

theorem nested_finder_exception_propagates:
  "fst (analyze_keyword_call (example_env\<lparr>find_keyword := failing_finder\<rparr>)
          (Some ''Run Keyword If'') (statement KeywordCall [])
          (Some (token_at KEYWORD ''Run Keyword If'' 4))
          [arg_at ''${c}'' 22, arg_at ''Boom'' 30] True in_test) = Raise ValueError
   \<and> \<not> is_reraised ValueError
   \<and> analyze_keyword_call (example_env\<lparr>find_keyword := failing_finder\<rparr>)
          (Some ''Boom'') (statement KeywordCall [])
          (Some (token_at KEYWORD ''Boom'' 4)) [] True in_test
       = (Return None,
          in_test\<lparr>results :=
            [mk_diagnostic (range_from_token (token_at KEYWORD ''Boom'' 4)) ''boom''
               (Some ERROR) (Some ''ValueError'') (Some ''robotcode'') None None]\<rparr>)
   \<and> fst (analyze_keyword_call
            (example_env\<lparr>find_keyword := failing_finder, document := Some [''one line only'']\<rparr>)
            (Some ''Boom'') (statement KeywordCall [])
            (Some (token_at KEYWORD ''Boom'' 4)) [] True in_test) = Raise IndexError"
  by code_simp

section \<open>The definition resolver\<close>

lemma lookup_found:
  "fk name = Inr (Some d) \<Longrightarrow>
   lookup fk name = (if kw_source d = None then Inr (Inl None) else Inr (Inr d))"
  by (simp add: lookup_def)

text \<open>
  Claim C6 (corrected). The claim: for every keyword name that the finder resolves to a
  keyword \<open>doc\<close>, a definition request at a position on the keyword-name token of a call of
  it returns exactly one link, whose \<^verbatim>\<open>target_uri\<close> is the URI of \<^verbatim>\<open>doc.source\<close>.

  What the code does: for a call whose keyword name is not empty, whose keyword token is
  there and whose document has a namespace, with the name resolved to \<open>doc\<close> and the
  position on the token, the answer is \<^verbatim>\<open>None\<close> when \<open>doc\<close> has no source file, and
  otherwise the one link from the token's range to the whole of \<open>doc\<close>, with
  \<^verbatim>\<open>Uri.from_path\<close> of the source as its target.
\<close>

theorem definition_at_keyword_token:
  assumes "\<not> falsy keyword"
    and "get_token token_type nd = Some keyword_token"
    and "namespace_find_keyword rs = Some fk"
    and "fk keyword = Inr (Some doc)"
    and "is_in_range position (range_from_token keyword_token) True"
  shows "definition_KeywordCall_or_Fixture rs keyword token_type nd position =
           (case kw_source doc of
              None \<Rightarrow> Inr None
            | Some path \<Rightarrow>
                Inr (Some [\<lparr>origin_selection_range = range_from_token keyword_token,
                            target_uri = from_path rs path,
                            target_range = kw_range doc,
                            target_selection_range = kw_range doc\<rparr>]))"
  using assms
  by (simp add: definition_KeywordCall_or_Fixture_def lookup_found location_link_def
        range_from_node_or_token_def split: option.splits)

text \<open>The statement \<^verbatim>\<open>My Keyword\<close>, asked about at the third character of the name.\<close>

theorem definition_at_keyword_token_witness:
  "definition_KeywordCall_or_Fixture example_resolver (Some ''My Keyword'') KEYWORD
     (statement KeywordCall [token_at KEYWORD ''My Keyword'' 4]) \<lparr>line = 2, character = 6\<rparr>
   = Inr (Some [\<lparr>origin_selection_range =
                    \<lparr>start = \<lparr>line = 2, character = 4\<rparr>, end_pos = \<lparr>line = 2, character = 14\<rparr>\<rparr>,
                 target_uri = ''file:///suite/my.resource'',
                 target_range = Range_zero, target_selection_range = Range_zero\<rparr>])"
proof -
  let ?t = "token_at KEYWORD ''My Keyword'' 4"
  let ?fk = "\<lambda>name. case example_finder name of Inl e \<Rightarrow> Inl e | Inr found \<Rightarrow> Inr (fst found)"
  let ?doc = "example_doc ''My Keyword'' ''my'' (Some ''/suite/my.resource'') NoFamily"
  have 1: "\<not> falsy (Some ''My Keyword'')" by code_simp
  have 2: "get_token KEYWORD (statement KeywordCall [?t]) = Some ?t" by code_simp
  have 3: "namespace_find_keyword example_resolver = Some ?fk" by (simp add: example_resolver_def)
  have 4: "?fk (Some ''My Keyword'') = Inr (Some ?doc)" by code_simp
  have 5: "is_in_range \<lparr>line = 2, character = 6\<rparr> (range_from_token ?t) True" by code_simp
  have 6: "kw_source ?doc = Some ''/suite/my.resource''" by code_simp
  have 7: "from_path example_resolver ''/suite/my.resource'' = ''file:///suite/my.resource''"
    by code_simp
  have 8: "range_from_token ?t =
             \<lparr>start = \<lparr>line = 2, character = 4\<rparr>, end_pos = \<lparr>line = 2, character = 14\<rparr>\<rparr>"
    by code_simp
  have 9: "kw_range ?doc = Range_zero" by code_simp
  show ?thesis
    using definition_at_keyword_token [OF 1 2 3 4 5] by (simp only: 6 7 8 9 option.case)
qed

text \<open>
  The claim as it was stated fails on a keyword without a source file: the name
  \<^verbatim>\<open>No Source\<close> is resolved, the position is on its token, and there is no link.
\<close>

theorem keyword_without_source_has_no_definition:
  "(case namespace_find_keyword example_resolver of
      Some fk \<Rightarrow> fk (Some ''No Source'')
    | None \<Rightarrow> Inr None)
   = Inr (Some (example_doc ''No Source'' ''dyn'' None NoFamily))
   \<and> is_in_range \<lparr>line = 2, character = 6\<rparr>
        (range_from_token (token_at KEYWORD ''No Source'' 4)) True
   \<and> definition_KeywordCall example_resolver
        (statement KeywordCall [token_at KEYWORD ''No Source'' 4])
        \<lparr>line = 2, character = 6\<rparr> = Inr None"
  by code_simp

text \<open>
  Claim C7 (does not hold of the code). The claim: on an argument token of a BuiltIn
  run-keyword call the definition resolver selects the same token as the nested keyword
  name as the analyzer does, with the keyword at \<open>A[c]\<close> after \<open>c\<close> condition arguments,
  and with the ELSE and ELSE IF branches of Run Keyword If followed.

  The resolver takes the token at index 1 for every keyword with condition arguments,
  and after the first keyword of a Run Keyword If it drops two tokens and goes on with
  that keyword's descriptor, so the branches are never reached. In
  \<^verbatim>\<open>Run Keyword If    ${c}    Log    hi    ELSE    Old Keyword\<close> and in
  \<^verbatim>\<open>Wait Until Keyword Succeeds    3x    1s    Old Keyword\<close> the analyzer resolves
  \<^verbatim>\<open>Old Keyword\<close> as the nested keyword (it reports its deprecation, at that token), and
  the resolver, asked at that token, answers \<^verbatim>\<open>None\<close>; after a plain Run Keyword it
  answers with the link.
\<close>

theorem definition_resolver_misses_nested_keywords:
  "definition_KeywordCall example_resolver
     (statement KeywordCall
        [token_at KEYWORD ''Run Keyword If'' 4, arg_at ''${c}'' 22, arg_at ''Log'' 30,
         arg_at ''hi'' 37, arg_at ''ELSE'' 43, arg_at ''Old Keyword'' 51])
     \<lparr>line = 2, character = 53\<rparr> = Inr None
   \<and> results (snd (visit_KeywordCall example_env
     (statement KeywordCall
        [token_at KEYWORD ''Run Keyword If'' 4, arg_at ''${c}'' 22, arg_at ''Log'' 30,
         arg_at ''hi'' 37, arg_at ''ELSE'' 43, arg_at ''Old Keyword'' 51]) in_test))
     = [mk_diagnostic (range_from_token (arg_at ''Old Keyword'' 51))
          ''Keyword 'Old Keyword' is deprecated: use New Keyword.''
          (Some HINT) None (Some ''robotcode'') (Some [Deprecated]) None]
   \<and> definition_KeywordCall example_resolver
     (statement KeywordCall
        [token_at KEYWORD ''Wait Until Keyword Succeeds'' 4, arg_at ''3x'' 35, arg_at ''1s'' 41,
         arg_at ''Old Keyword'' 47])
     \<lparr>line = 2, character = 50\<rparr> = Inr None
   \<and> results (snd (visit_KeywordCall example_env
     (statement KeywordCall
        [token_at KEYWORD ''Wait Until Keyword Succeeds'' 4, arg_at ''3x'' 35, arg_at ''1s'' 41,
         arg_at ''Old Keyword'' 47]) in_test))
     = [mk_diagnostic (range_from_token (arg_at ''Old Keyword'' 47))
          ''Keyword 'Old Keyword' is deprecated: use New Keyword.''
          (Some HINT) None (Some ''robotcode'') (Some [Deprecated]) None]
   \<and> definition_KeywordCall example_resolver
     (statement KeywordCall
        [token_at KEYWORD ''Run Keyword'' 4, arg_at ''Old Keyword'' 19])
     \<lparr>line = 2, character = 21\<rparr>
     = Inr (Some [location_link example_resolver (statement KeywordCall [])
                    (arg_at ''Old Keyword'' 19)
                    (the (map_of example_keywords ''Old Keyword''))])"
  by code_simp

section \<open>The ignore pragma\<close>






lemma run_length_le: "p \<le> length s \<Longrightarrow> p + run_length c s p \<le> length s"
  using length_takeWhile_le[of "in_class c" "drop p s"] by (simp add: run_length_def)





















































text \<open>
  White space and letters outside ASCII: a no-break space after the colon is white space,
  and \<^verbatim>\<open>ignore\<close> followed by the letter U+00E9 is another rule word.
\<close>

lemma latin1_white_space_and_letters:
  "line_has_ignore (''    Unknown Kw    # robotcode:'' @ [CHR 0xA0] @ ''ignore'')
   \<and> \<not> line_has_ignore (''    Unknown Kw    # robotcode: ignore'' @ [CHR 0xE9])
   \<and> \<not> spec_line_qualifies (''    Unknown Kw    # robotcode: ignore'' @ [CHR 0xE9])"
  by code_simp

end
